theory Spec2Isabelle
  imports Main "HOL-Library.AList"
begin

section \<open>The runtime: sockets, JSON, exceptions\<close>

text \<open>
  The notification transport of the repository is \<^verbatim>\<open>server/index.js\<close> (the channel
  registry \<^verbatim>\<open>wsConnections\<close>, the connection handler, \<^verbatim>\<open>broadcastToChannel\<close> and
  the heartbeat interval) and \<^verbatim>\<open>src/hooks/useWebSocket.ts\<close> (the client hook).
  Both run on one event loop, so each handler is modelled as a function from the state
  before the callback to the state after it.

  The socket objects come from the \<^verbatim>\<open>ws\<close> package and from the browser. They are
  modelled by the fields the repository reads and writes (\<^verbatim>\<open>readyState\<close>,
  \<^verbatim>\<open>isAlive\<close>, \<^verbatim>\<open>isAuthenticated\<close>) and by what the repository asks of them:
  the frames handed to \<^verbatim>\<open>send\<close>, the pings, the close code, a forced termination.
\<close>

datatype readyState = CONNECTING | OPEN | CLOSING | CLOSED

datatype js_error = TypeError | SyntaxError | SendError | ReferenceError

text \<open>
  A frame written by the server. The \<^verbatim>\<open>timestamp\<close> fields of the control envelopes
  are left out: the clock is not part of the state. \<open>Data s\<close> is a broadcast whose
  serialisation is the text \<open>s\<close>.
\<close>

datatype frame = Connected string | Pong | AuthSuccess | Data string

text \<open>
  The argument of \<^verbatim>\<open>broadcastToChannel\<close> is any JavaScript value. It is modelled by
  what \<^verbatim>\<open>JSON.stringify\<close> makes of it: \<open>Json s\<close> serialises to the text \<open>s\<close>,
  \<open>Cyclic\<close> is a value on which \<^verbatim>\<open>JSON.stringify\<close> raises a TypeError (an object
  graph with a cycle, a BigInt).
\<close>

datatype payload = Json string | Cyclic

definition JSON_stringify :: "payload \<Rightarrow> js_error + string" where
  "JSON_stringify d = (case d of Json s \<Rightarrow> Inr s | Cyclic \<Rightarrow> Inl TypeError)"

text \<open>
  An inbound text frame is modelled by what \<^verbatim>\<open>JSON.parse\<close> makes of it: it raises a
  SyntaxError (\<open>Malformed\<close>), or returns \<^verbatim>\<open>null\<close>, on which reading \<^verbatim>\<open>.type\<close>
  raises a TypeError, or returns a value whose \<^verbatim>\<open>type\<close> property is the given string
  (\<open>None\<close> when the property is absent or not a string).
\<close>

datatype data = Null | Obj "string option"

datatype message = Malformed | WellFormed data

definition JSON_parse :: "message \<Rightarrow> js_error + data" where
  "JSON_parse m = (case m of Malformed \<Rightarrow> Inl SyntaxError | WellFormed d \<Rightarrow> Inr d)"

definition type_of :: "data \<Rightarrow> js_error + string option" where
  "type_of d = (case d of Null \<Rightarrow> Inl TypeError | Obj t \<Rightarrow> Inr t)"

text \<open>
  A server-side socket. \<open>isAlive\<close> is \<open>None\<close> while the property is undefined.
  \<open>listening\<close> is the channel captured by the \<^verbatim>\<open>message\<close>, \<^verbatim>\<open>close\<close> and
  \<^verbatim>\<open>pong\<close> handlers once they are attached. \<open>sendThrows\<close> is the environment's
  choice whether \<^verbatim>\<open>send\<close> raises on this socket; \<open>sent\<close> lists the frames that
  \<^verbatim>\<open>send\<close> accepted.
\<close>

record connection =
  readyState :: readyState
  isAlive :: "bool option"
  isAuthenticated :: bool
  listening :: "string option"
  sendThrows :: bool
  sent :: "frame list"
  pings :: nat
  closeCode :: "(nat \<times> string) option"
  terminated :: bool

definition ws_send :: "connection \<Rightarrow> frame \<Rightarrow> js_error + connection" where
  "ws_send c f = (if sendThrows c then Inl SendError else Inr (c\<lparr>sent := sent c @ [f]\<rparr>))"

definition ws_close :: "connection \<Rightarrow> nat \<Rightarrow> string \<Rightarrow> connection" where
  "ws_close c code reason =
     (if readyState c = OPEN
      then c\<lparr>readyState := CLOSING, closeCode := Some (code, reason)\<rparr>
      else c)"

definition ws_ping :: "connection \<Rightarrow> connection" where
  "ws_ping c = c\<lparr>pings := Suc (pings c)\<rparr>"

definition ws_terminate :: "connection \<Rightarrow> connection" where
  "ws_terminate c = c\<lparr>readyState := CLOSING, terminated := True\<rparr>"

definition new_socket :: "bool \<Rightarrow> connection" where
  "new_socket throws =
     \<lparr>readyState = OPEN, isAlive = None, isAuthenticated = False, listening = None,
      sendThrows = throws, sent = [], pings = 0, closeCode = None, terminated = False\<rparr>"

section \<open>The server state\<close>

text \<open>
  \<open>wsConnections\<close> is the \<^verbatim>\<open>Map\<close> from channel name to the \<^verbatim>\<open>Set\<close> of sockets;
  a set is the list of its members in insertion order, which is the order
  \<^verbatim>\<open>forEach\<close> visits them in. \<open>clients\<close> is \<^verbatim>\<open>wss.clients\<close>. Sockets are
  objects with identity, so the sets hold references into the store \<open>sockets\<close>.
  \<open>console_error\<close> collects the lines written with \<^verbatim>\<open>console.error\<close>.

  \<open>WebSocket_defined\<close> is the runtime the process runs on. The file imports only
  \<^verbatim>\<open>WebSocketServer\<close> from the \<^verbatim>\<open>ws\<close> package, so the name \<^verbatim>\<open>WebSocket\<close> in
  \<^verbatim>\<open>broadcastToChannel\<close> is the global of the runtime: defined from Node 22 on, with
  \<^verbatim>\<open>WebSocket.OPEN\<close> the open state of a socket, and not defined on an older runtime,
  where evaluating it raises a ReferenceError.
\<close>

record server =
  wsConnections :: "string \<rightharpoonup> nat list"
  clients :: "nat list"
  sockets :: "nat \<Rightarrow> connection"
  console_error :: "string list"
  nextId :: nat
  WebSocket_defined :: bool

text \<open>
  The state the process starts in, on a runtime with the global;
  \<open>init_server\<lparr>WebSocket_defined := False\<rparr>\<close> is the start on a runtime without it.
\<close>

definition init_server :: server where
  "init_server =
     \<lparr>wsConnections = Map.empty, clients = [], sockets = (\<lambda>_. new_socket False),
      console_error = [], nextId = 0, WebSocket_defined = True\<rparr>"

definition set_add :: "nat \<Rightarrow> nat list \<Rightarrow> nat list" where
  "set_add x xs = (if x \<in> set xs then xs else xs @ [x])"

definition set_delete :: "nat \<Rightarrow> nat list \<Rightarrow> nat list" where
  "set_delete x xs = filter (\<lambda>y. y \<noteq> x) xs"

definition members :: "server \<Rightarrow> string \<Rightarrow> nat set" where
  "members st channel = (case wsConnections st channel of None \<Rightarrow> {} | Some xs \<Rightarrow> set xs)"

definition update_socket :: "server \<Rightarrow> nat \<Rightarrow> connection \<Rightarrow> server" where
  "update_socket st ws c = st\<lparr>sockets := (sockets st)(ws := c)\<rparr>"

definition log_error :: "server \<Rightarrow> string \<Rightarrow> server" where
  "log_error st line = st\<lparr>console_error := console_error st @ [line]\<rparr>"

section \<open>The connection handler\<close>

text \<open>
  \<^verbatim>\<open>String.prototype.split\<close> with a one-character separator: the pieces between the
  separators, \<^verbatim>\<open>['']\<close> for the empty string.
\<close>

fun js_split :: "char \<Rightarrow> string \<Rightarrow> string list" where
  "js_split sep [] = [[]]"
| "js_split sep (c # cs) =
     (if c = sep then [] # js_split sep cs
      else (case js_split sep cs of [] \<Rightarrow> [[c]] | p # ps \<Rightarrow> (c # p) # ps))"

text \<open>Indexing an array: \<^verbatim>\<open>undefined\<close> out of range.\<close>

fun js_index :: "'a list \<Rightarrow> nat \<Rightarrow> 'a option" where
  "js_index [] n = None"
| "js_index (x # xs) 0 = Some x"
| "js_index (x # xs) (Suc n) = js_index xs n"

text \<open>
  \<^verbatim>\<open>const urlParts = req.url.split('?')[0].split('/');\<close>
  \<^verbatim>\<open>const channel = urlParts[1] || 'default';\<close>
\<close>

definition urlParts :: "string \<Rightarrow> string list" where
  "urlParts url =
     js_split (CHR ''/'') (case js_index (js_split (CHR ''?'') url) 0 of None \<Rightarrow> [] | Some p \<Rightarrow> p)"

definition parse_channel :: "string \<Rightarrow> string" where
  "parse_channel url =
     (case js_index (urlParts url) 1 of
        None \<Rightarrow> ''default''
      | Some s \<Rightarrow> if s = [] then ''default'' else s)"

definition validChannels :: "string list" where
  "validChannels = [''DASHBOARD_STATS'', ''TENDER_REQUESTS'', ''WEBSITE_ANALYTICS'']"

definition invalid_channel_line :: "string \<Rightarrow> string" where
  "invalid_channel_line channel =
     ''Invalid channel: '' @ channel @ '', valid channels are: '' @
     ''DASHBOARD_STATS, TENDER_REQUESTS, WEBSITE_ANALYTICS''"

text \<open>
  The body of \<^verbatim>\<open>wss.on('connection', (ws, req) => ...)\<close>. The only call of the
  \<^verbatim>\<open>try\<close> block that can raise is the \<^verbatim>\<open>send\<close> of the CONNECTED envelope; it comes
  after the socket has been added to its channel and before any handler is attached, and
  the \<^verbatim>\<open>catch\<close> closes the socket with 1011.
\<close>

definition register :: "server \<Rightarrow> nat \<Rightarrow> string \<Rightarrow> server" where
  "register st ws channel =
     st\<lparr>wsConnections := (wsConnections st)
          (channel \<mapsto> set_add ws (case wsConnections st channel of None \<Rightarrow> [] | Some xs \<Rightarrow> xs))\<rparr>"

definition on_connection :: "server \<Rightarrow> nat \<Rightarrow> string \<Rightarrow> server" where
  "on_connection st ws url =
     (let channel = parse_channel url in
      if channel \<notin> set validChannels then
        update_socket (log_error st (invalid_channel_line channel)) ws
          (ws_close (sockets st ws) 1008 ''Invalid channel'')
      else
        (let st1 = register st ws channel in
         case ws_send (sockets st1 ws) (Connected channel) of
           Inl err \<Rightarrow>
             update_socket (log_error st1 ''Error in WebSocket connection:'') ws
               (ws_close (sockets st1 ws) 1011 ''Internal Server Error'')
         | Inr c \<Rightarrow>
             update_socket st1 ws (c\<lparr>listening := Some channel, isAlive := Some True\<rparr>)))"

text \<open>
  The server library accepts a socket: a new object, open, a member of \<^verbatim>\<open>wss.clients\<close>;
  then the \<^verbatim>\<open>connection\<close> event runs the handler on it.
\<close>

definition accept :: "server \<Rightarrow> bool \<Rightarrow> string \<Rightarrow> server" where
  "accept st throws url =
     (let ws = nextId st;
          st0 = st\<lparr>sockets := (sockets st)(ws := new_socket throws),
                   clients := clients st @ [ws], nextId := Suc ws\<rparr>
      in on_connection st0 ws url)"

section \<open>The message, pong and close handlers\<close>

text \<open>
  The body of \<^verbatim>\<open>ws.on('message', ...)\<close>. What the \<^verbatim>\<open>try\<close> block did before an
  exception stays done: in the AUTH branch the flag is set before \<^verbatim>\<open>send\<close> is called,
  in the PING branch \<^verbatim>\<open>isAlive\<close> is set after it.
\<close>

definition message_try :: "server \<Rightarrow> nat \<Rightarrow> message \<Rightarrow> (js_error \<times> server) + server" where
  "message_try st ws m =
     (case JSON_parse m of
        Inl e \<Rightarrow> Inl (e, st)
      | Inr d \<Rightarrow>
         (case type_of d of
            Inl e \<Rightarrow> Inl (e, st)
          | Inr t \<Rightarrow>
              if t = Some ''PING'' then
                (case ws_send (sockets st ws) Pong of
                   Inl e \<Rightarrow> Inl (e, st)
                 | Inr c \<Rightarrow> Inr (update_socket st ws (c\<lparr>isAlive := Some True\<rparr>)))
              else if t = Some ''AUTH'' then
                (let st1 = update_socket st ws ((sockets st ws)\<lparr>isAuthenticated := True\<rparr>) in
                 case ws_send (sockets st1 ws) AuthSuccess of
                   Inl e \<Rightarrow> Inl (e, st1)
                 | Inr c \<Rightarrow> Inr (update_socket st1 ws c))
              else Inr st))"

definition on_message :: "server \<Rightarrow> nat \<Rightarrow> message \<Rightarrow> server" where
  "on_message st ws m =
     (case message_try st ws m of
        Inl (err, st') \<Rightarrow> log_error st' ''Error handling WebSocket message:''
      | Inr st' \<Rightarrow> st')"

definition on_pong :: "server \<Rightarrow> nat \<Rightarrow> server" where
  "on_pong st ws = update_socket st ws ((sockets st ws)\<lparr>isAlive := Some True\<rparr>)"

text \<open>
  \<^verbatim>\<open>wsConnections.get(channel)?.delete(ws);\<close>
  \<^verbatim>\<open>if (wsConnections.get(channel)?.size === 0) wsConnections.delete(channel);\<close>
\<close>

definition on_close :: "server \<Rightarrow> nat \<Rightarrow> string \<Rightarrow> server" where
  "on_close st ws channel =
     (case wsConnections st channel of
        None \<Rightarrow> st
      | Some xs \<Rightarrow>
          (let ys = set_delete ws xs in
           if length ys = 0 then st\<lparr>wsConnections := (wsConnections st)(channel := None)\<rparr>
           else st\<lparr>wsConnections := (wsConnections st)(channel \<mapsto> ys)\<rparr>))"

section \<open>Broadcast and heartbeat\<close>

text \<open>
  The callback of the \<^verbatim>\<open>forEach\<close> in \<^verbatim>\<open>broadcastToChannel\<close>. The \<^verbatim>\<open>try\<close> holds
  both \<^verbatim>\<open>JSON.stringify(data)\<close> and \<^verbatim>\<open>client.send\<close>; the result is \<open>Inl\<close> when an
  exception leaves the callback. The condition
  \<^verbatim>\<open>client.readyState === WebSocket.OPEN\<close> is read before the \<^verbatim>\<open>try\<close>: on a
  runtime without the global \<^verbatim>\<open>WebSocket\<close> it raises a ReferenceError that nothing
  in the callback catches.
\<close>

definition broadcast_client :: "payload \<Rightarrow> server \<Rightarrow> nat \<Rightarrow> js_error + server" where
  "broadcast_client d st client =
     (if \<not> WebSocket_defined st then Inl ReferenceError
      else if readyState (sockets st client) = OPEN then
        (case (case JSON_stringify d of
                 Inl e \<Rightarrow> Inl e
               | Inr s \<Rightarrow> ws_send (sockets st client) (Data s)) of
           Inl error \<Rightarrow> Inr (log_error st ''Failed to send message to client:'')
         | Inr c \<Rightarrow> Inr (update_socket st client c))
      else Inr st)"

text \<open>\<^verbatim>\<open>forEach\<close>: an exception leaving the callback ends the loop and leaves \<^verbatim>\<open>forEach\<close>.\<close>

fun forEach :: "('s \<Rightarrow> 'a \<Rightarrow> js_error + 's) \<Rightarrow> 'a list \<Rightarrow> 's \<Rightarrow> js_error + 's" where
  "forEach f [] st = Inr st"
| "forEach f (x # xs) st = (case f st x of Inl e \<Rightarrow> Inl e | Inr st' \<Rightarrow> forEach f xs st')"

definition broadcastToChannel :: "server \<Rightarrow> string \<Rightarrow> payload \<Rightarrow> js_error + server" where
  "broadcastToChannel st channel d =
     (case wsConnections st channel of
        None \<Rightarrow> Inr st
      | Some xs \<Rightarrow> forEach (broadcast_client d) xs st)"

text \<open>
  The heartbeat interval, every 30 seconds:
  \<^verbatim>\<open>if (ws.isAlive === false) return ws.terminate(); ws.isAlive = false; ws.ping();\<close>
\<close>

definition sweep_client :: "server \<Rightarrow> nat \<Rightarrow> server" where
  "sweep_client st ws =
     (if isAlive (sockets st ws) = Some False
      then update_socket st ws (ws_terminate (sockets st ws))
      else update_socket st ws (ws_ping ((sockets st ws)\<lparr>isAlive := Some False\<rparr>)))"

definition pingInterval :: "server \<Rightarrow> server" where
  "pingInterval st = foldl sweep_client st (clients st)"

section \<open>Events\<close>

text \<open>
  What the event loop can run on the server. \<open>Close ws\<close> is the socket's close event
  (after a close handshake, a network failure or \<^verbatim>\<open>terminate\<close>): the library marks the
  socket closed and drops it from \<^verbatim>\<open>wss.clients\<close>, then the handler runs if it was
  attached. A broadcast raises only on a runtime without the global \<^verbatim>\<open>WebSocket\<close>,
  at the first member and before anything is sent: the state is as it was. The process
  starts on either runtime.
\<close>

datatype event =
    Connection bool string
  | Message nat message
  | PongFrame nat
  | Close nat
  | Sweep
  | Broadcast string payload

definition step :: "server \<Rightarrow> event \<Rightarrow> server" where
  "step st ev =
     (case ev of
        Connection throws url \<Rightarrow> accept st throws url
      | Message ws m \<Rightarrow>
          (case listening (sockets st ws) of None \<Rightarrow> st | Some channel \<Rightarrow> on_message st ws m)
      | PongFrame ws \<Rightarrow>
          (case listening (sockets st ws) of None \<Rightarrow> st | Some channel \<Rightarrow> on_pong st ws)
      | Close ws \<Rightarrow>
          (let st1 = (update_socket st ws ((sockets st ws)\<lparr>readyState := CLOSED\<rparr>))
                       \<lparr>clients := set_delete ws (clients st)\<rparr>
           in case listening (sockets st ws) of None \<Rightarrow> st1 | Some channel \<Rightarrow> on_close st1 ws channel)
      | Sweep \<Rightarrow> pingInterval st
      | Broadcast channel d \<Rightarrow>
          (case broadcastToChannel st channel d of Inl e \<Rightarrow> st | Inr st' \<Rightarrow> st'))"

definition run :: "server \<Rightarrow> event list \<Rightarrow> server" where
  "run st evs = foldl step st evs"

inductive reachable :: "server \<Rightarrow> bool" where
  reachable_init: "reachable (init_server\<lparr>WebSocket_defined := g\<rparr>)"
| reachable_step: "reachable st \<Longrightarrow> reachable (step st ev)"

section \<open>The client hook\<close>

text \<open>
  \<^verbatim>\<open>useWebSocket(channel, options)\<close>. A hook instance is one mounted component's use
  of the hook: its options and token, its React state (\<^verbatim>\<open>isConnected\<close>, \<^verbatim>\<open>error\<close>)
  and its refs. The options of an instance do not change while it lives.
  \<open>received\<close> lists the values its \<^verbatim>\<open>onMessage\<close> callback was called with.
  \<open>reconnectTimeout\<close> is the delay of the pending reconnect timer, \<open>None\<close> when no
  timer is pending.
\<close>

record hook =
  channel :: string
  enabled :: bool
  reconnectAttempts :: nat
  token :: "string option"
  hasOnMessage :: bool
  isConnected :: bool
  error :: "string option"
  wsRef :: "nat option"
  reconnectCount :: nat
  reconnectTimeout :: "nat option"
  lastMessageTime :: nat
  isUnmounted :: bool
  received :: "string list"

text \<open>The defaults of the options: \<^verbatim>\<open>reconnectAttempts = 5\<close>, \<^verbatim>\<open>enabled = true\<close>.\<close>

definition new_hook :: "string \<Rightarrow> string option \<Rightarrow> bool \<Rightarrow> nat \<Rightarrow> hook" where
  "new_hook ch tok onMsg now =
     \<lparr>channel = ch, enabled = True, reconnectAttempts = 5, token = tok, hasOnMessage = onMsg,
      isConnected = False, error = None, wsRef = None, reconnectCount = 0,
      reconnectTimeout = None, lastMessageTime = now, isUnmounted = False, received = []\<rparr>"

text \<open>
  A browser socket. Its handlers are closures of the \<^verbatim>\<open>connect\<close> call that created
  it: \<open>owner\<close> is the hook instance whose refs, state setters and \<^verbatim>\<open>onMessage\<close> they
  use. \<open>outbox\<close> lists what was sent on it.
\<close>

datatype client_frame = AUTH string string | PING string

record websocket =
  wsState :: readyState
  owner :: nat
  outbox :: "client_frame list"

text \<open>
  \<open>activeConnections\<close> is the module-level object from channel name to socket, as the
  list of its properties; \<^verbatim>\<open>Object.values\<close> is the list of the second components.
\<close>

record client =
  activeConnections :: "(string \<times> nat) list"
  websockets :: "nat \<Rightarrow> websocket"
  hooks :: "nat \<Rightarrow> hook"
  nextSocket :: nat
  client_console_error :: "string list"

definition init_client :: "(nat \<Rightarrow> hook) \<Rightarrow> client" where
  "init_client hs =
     \<lparr>activeConnections = [], websockets = (\<lambda>_. \<lparr>wsState = CLOSED, owner = 0, outbox = []\<rparr>),
      hooks = hs, nextSocket = 0, client_console_error = []\<rparr>"

definition update_hook :: "client \<Rightarrow> nat \<Rightarrow> hook \<Rightarrow> client" where
  "update_hook cl h hk = cl\<lparr>hooks := (hooks cl)(h := hk)\<rparr>"

text \<open>An event carries the text of the frame, modelled by what \<^verbatim>\<open>JSON.parse\<close> makes of it.\<close>

datatype event_data = BadJson | GoodJson string

definition JSON_parse_client :: "event_data \<Rightarrow> js_error + string" where
  "JSON_parse_client e = (case e of BadJson \<Rightarrow> Inl SyntaxError | GoodJson v \<Rightarrow> Inr v)"

text \<open>
  \<^verbatim>\<open>connect\<close>, lines 35 to 60: nothing when disabled or when the ref holds a socket
  that is connecting or open; an existing socket of the channel is taken over with a
  plain \<^verbatim>\<open>return\<close>; otherwise a new socket is made (the constructor is taken not
  to raise) and registered. The keepalive and
  staleness intervals that \<^verbatim>\<open>connect\<close> starts afterwards only send PING frames and
  call \<^verbatim>\<open>ws.close()\<close>; their effect on this state is the close event below.
\<close>

definition connect :: "client \<Rightarrow> nat \<Rightarrow> client" where
  "connect cl h =
     (let hk = hooks cl h in
      if \<not> enabled hk then cl
      else if (case wsRef hk of
                 None \<Rightarrow> False
               | Some w \<Rightarrow> wsState (websockets cl w) = CONNECTING \<or> wsState (websockets cl w) = OPEN)
      then cl
      else
        (case map_of (activeConnections cl) (channel hk) of
           Some w \<Rightarrow> update_hook cl h (hk\<lparr>wsRef := Some w, isConnected := True\<rparr>)
         | None \<Rightarrow>
             (let w = nextSocket cl in
              cl\<lparr>websockets := (websockets cl)(w := \<lparr>wsState = CONNECTING, owner = h, outbox = []\<rparr>),
                 hooks := (hooks cl)(h := hk\<lparr>wsRef := Some w\<rparr>),
                 activeConnections := AList.update (channel hk) w (activeConnections cl),
                 nextSocket := Suc w\<rparr>)))"

text \<open>
  \<^verbatim>\<open>ws.onopen\<close>: the browser has opened socket \<open>w\<close>; \<open>now\<close> is \<^verbatim>\<open>Date.now()\<close>.
  The AUTH envelope is sent \<^verbatim>\<open>if (token)\<close>: not for \<^verbatim>\<open>null\<close>, not for the
  empty string.
\<close>

definition onopen :: "client \<Rightarrow> nat \<Rightarrow> nat \<Rightarrow> client" where
  "onopen cl w now =
     (let h = owner (websockets cl w);
          hk = hooks cl h;
          sock = (websockets cl w)\<lparr>wsState := OPEN\<rparr>;
          hk' = hk\<lparr>isConnected := True, error := None, reconnectCount := 0,
                   lastMessageTime := now\<rparr>;
          sock' = (case token hk of
                     None \<Rightarrow> sock
                   | Some t \<Rightarrow>
                       if t = [] then sock
                       else sock\<lparr>outbox := outbox sock @ [AUTH t (channel hk)]\<rparr>)
      in cl\<lparr>websockets := (websockets cl)(w := sock'), hooks := (hooks cl)(h := hk')\<rparr>)"

text \<open>
  \<^verbatim>\<open>ws.onmessage\<close>: the handler of the socket calls the \<^verbatim>\<open>onMessage\<close> of the
  \<^verbatim>\<open>connect\<close> call that created the socket, and no other. A call of the callback
  is recorded in \<open>received\<close>; the callback itself is taken to return.
\<close>

definition onmessage :: "client \<Rightarrow> nat \<Rightarrow> event_data \<Rightarrow> nat \<Rightarrow> client" where
  "onmessage cl w e now =
     (let h = owner (websockets cl w); hk = hooks cl h in
      case JSON_parse_client e of
        Inl err \<Rightarrow>
          cl\<lparr>client_console_error := client_console_error cl @ [''Failed to parse WebSocket message:'']\<rparr>
      | Inr d \<Rightarrow>
          update_hook cl h
            (hk\<lparr>lastMessageTime := now,
                received := (if hasOnMessage hk then received hk @ [d] else received hk)\<rparr>))"

text \<open>The delay of line 93: \<^verbatim>\<open>Math.min(1000 * Math.pow(2, reconnectCountRef.current), 30000)\<close>.\<close>

definition backoff :: "nat \<Rightarrow> nat" where
  "backoff n = min (1000 * 2 ^ n) 30000"

text \<open>\<^verbatim>\<open>ws.onclose\<close>: the browser has closed socket \<open>w\<close>.\<close>

definition onclose :: "client \<Rightarrow> nat \<Rightarrow> client" where
  "onclose cl w =
     (let h = owner (websockets cl w);
          hk = hooks cl h;
          cl0 = cl\<lparr>websockets := (websockets cl)(w := (websockets cl w)\<lparr>wsState := CLOSED\<rparr>)\<rparr>
      in
      if isUnmounted hk then cl0
      else
        (let hk1 = hk\<lparr>isConnected := False, wsRef := None\<rparr>;
             cl1 = cl0\<lparr>activeConnections := AList.delete (channel hk) (activeConnections cl0)\<rparr>
         in
         if \<not> isUnmounted hk1 \<and> enabled hk1 \<and> reconnectCount hk1 < reconnectAttempts hk1
         then update_hook cl1 h (hk1\<lparr>reconnectTimeout := Some (backoff (reconnectCount hk1))\<rparr>)
         else if reconnectCount hk1 \<ge> reconnectAttempts hk1
         then update_hook cl1 h (hk1\<lparr>error := Some ''Maximum reconnection attempts reached''\<rparr>)
         else update_hook cl1 h hk1))"

text \<open>\<^verbatim>\<open>ws.onerror\<close>.\<close>

definition onerror :: "client \<Rightarrow> nat \<Rightarrow> client" where
  "onerror cl w =
     (let h = owner (websockets cl w); hk = hooks cl h in
      (update_hook cl h (hk\<lparr>error := Some ''Connection error occurred''\<rparr>))
        \<lparr>client_console_error := client_console_error cl @ [''WebSocket error for '' @ channel hk @ '':'']\<rparr>)"

text \<open>The reconnect timer of hook \<open>h\<close> fires: \<^verbatim>\<open>reconnectCountRef.current++; connect();\<close>\<close>

definition reconnect_timer :: "client \<Rightarrow> nat \<Rightarrow> client" where
  "reconnect_timer cl h =
     (case reconnectTimeout (hooks cl h) of
        None \<Rightarrow> cl
      | Some delay \<Rightarrow>
          connect
            (update_hook cl h
               ((hooks cl h)\<lparr>reconnectTimeout := None, reconnectCount := Suc (reconnectCount (hooks cl h))\<rparr>))
            h)"

text \<open>The effect of lines 141 to 146, run when the component mounts.\<close>

definition useEffect_mount :: "client \<Rightarrow> nat \<Rightarrow> client" where
  "useEffect_mount cl h =
     (let cl1 = update_hook cl h ((hooks cl h)\<lparr>isUnmounted := False\<rparr>) in
      if enabled (hooks cl1 h) then connect cl1 h else cl1)"

text \<open>
  The cleanup of lines 148 to 163, run when the component unmounts.
  \<^verbatim>\<open>otherComponentsUsingChannel\<close> is
  \<^verbatim>\<open>Object.values(activeConnections).includes(wsRef.current)\<close>.
\<close>

definition useEffect_cleanup :: "client \<Rightarrow> nat \<Rightarrow> client" where
  "useEffect_cleanup cl h =
     (let hk = (hooks cl h)\<lparr>isUnmounted := True, reconnectTimeout := None\<rparr>;
          cl1 = update_hook cl h hk
      in
      case wsRef hk of
        None \<Rightarrow> cl1
      | Some w \<Rightarrow>
          (let otherComponentsUsingChannel = (w \<in> set (map snd (activeConnections cl1)));
               cl2 = (if \<not> otherComponentsUsingChannel
                      then cl1\<lparr>websockets := (websockets cl1)
                                  (w := (websockets cl1 w)
                                     \<lparr>wsState := (if wsState (websockets cl1 w) = CLOSED then CLOSED else CLOSING)\<rparr>),
                               activeConnections := AList.delete (channel hk) (activeConnections cl1)\<rparr>
                      else cl1)
           in update_hook cl2 h (hk\<lparr>wsRef := None\<rparr>)))"

text \<open>
  What the event loop can run on the client: a component mounts or unmounts, the browser
  opens a socket, delivers a frame on it, closes it or reports an error on it, a
  reconnect timer fires. The browser raises events only on sockets that exist.
\<close>

datatype client_event =
    Mount nat
  | Unmount nat
  | Opened nat nat
  | Received nat event_data nat
  | Closed nat
  | Errored nat
  | Timer nat

definition client_step :: "client \<Rightarrow> client_event \<Rightarrow> client" where
  "client_step cl ev =
     (case ev of
        Mount h \<Rightarrow> useEffect_mount cl h
      | Unmount h \<Rightarrow> useEffect_cleanup cl h
      | Opened w now \<Rightarrow> if w < nextSocket cl then onopen cl w now else cl
      | Received w e now \<Rightarrow> if w < nextSocket cl then onmessage cl w e now else cl
      | Closed w \<Rightarrow> if w < nextSocket cl then onclose cl w else cl
      | Errored w \<Rightarrow> if w < nextSocket cl then onerror cl w else cl
      | Timer h \<Rightarrow> reconnect_timer cl h)"

definition client_run :: "client \<Rightarrow> client_event list \<Rightarrow> client" where
  "client_run cl evs = foldl client_step cl evs"

text \<open>The states the client reaches from its start, whatever the options of its hooks.\<close>

inductive client_reachable :: "client \<Rightarrow> bool" where
  client_reachable_init: "client_reachable (init_client hs)"
| client_reachable_step: "client_reachable cl \<Longrightarrow> client_reachable (client_step cl ev)"

text \<open>
  \<^verbatim>\<open>config/api.ts\<close>: \<^verbatim>\<open>API_ENDPOINTS.WS\<close>, over the base URL \<^verbatim>\<open>WS_BASE_URL\<close>
  (the environment's \<^verbatim>\<open>VITE_WS_URL\<close>, or \<^verbatim>\<open>ws://localhost:5000\<close>), and the URL
  that \<^verbatim>\<open>connect\<close> opens (line 56).
\<close>

definition API_ENDPOINTS_WS :: "string \<Rightarrow> (string \<times> string) list" where
  "API_ENDPOINTS_WS WS_BASE_URL =
     [(''DASHBOARD_STATS'', WS_BASE_URL @ ''/ws/dashboard-stats''),
      (''TENDER_REQUESTS'', WS_BASE_URL @ ''/ws/tender-requests''),
      (''WEBSITE_ANALYTICS'', WS_BASE_URL @ ''/ws/website-analytics'')]"

definition wsUrl :: "string \<Rightarrow> string \<Rightarrow> string option" where
  "wsUrl WS_BASE_URL ch =
     (case map_of (API_ENDPOINTS_WS WS_BASE_URL) ch of
        None \<Rightarrow> None
      | Some endpoint \<Rightarrow> Some (endpoint @ ''?channel='' @ ch))"

section \<open>Server: what the handlers leave alone\<close>

lemma reachable_init_server: "reachable init_server"
  using reachable_init [of True] by (simp add: init_server_def)

lemma update_socket_frame [simp]:
  "WebSocket_defined (update_socket st ws c) = WebSocket_defined st"
  "wsConnections (update_socket st ws c) = wsConnections st"
  "clients (update_socket st ws c) = clients st"
  "nextId (update_socket st ws c) = nextId st"
  "console_error (update_socket st ws c) = console_error st"
  "sockets (update_socket st ws c) = (sockets st)(ws := c)"
  by (simp_all add: update_socket_def)

lemma log_error_frame [simp]:
  "WebSocket_defined (log_error st l) = WebSocket_defined st"
  "wsConnections (log_error st l) = wsConnections st"
  "clients (log_error st l) = clients st"
  "nextId (log_error st l) = nextId st"
  "sockets (log_error st l) = sockets st"
  "console_error (log_error st l) = console_error st @ [l]"
  by (simp_all add: log_error_def)

lemma register_frame [simp]:
  "clients (register st ws ch) = clients st"
  "nextId (register st ws ch) = nextId st"
  "sockets (register st ws ch) = sockets st"
  "console_error (register st ws ch) = console_error st"
  by (simp_all add: register_def)

lemma on_message_frame:
  "wsConnections (on_message st ws m) = wsConnections st"
  "clients (on_message st ws m) = clients st"
  "nextId (on_message st ws m) = nextId st"
  by (auto simp: on_message_def message_try_def JSON_parse_def type_of_def ws_send_def Let_def
      split: message.splits data.splits sum.splits prod.splits if_splits)

lemma on_pong_frame:
  "wsConnections (on_pong st ws) = wsConnections st"
  "clients (on_pong st ws) = clients st"
  "nextId (on_pong st ws) = nextId st"
  by (simp_all add: on_pong_def)

lemma sweep_client_frame:
  "wsConnections (sweep_client st ws) = wsConnections st"
  "clients (sweep_client st ws) = clients st"
  "nextId (sweep_client st ws) = nextId st"
  "console_error (sweep_client st ws) = console_error st"
  by (simp_all add: sweep_client_def)

lemma foldl_sweep_frame:
  "wsConnections (foldl sweep_client st xs) = wsConnections st \<and>
   clients (foldl sweep_client st xs) = clients st \<and>
   nextId (foldl sweep_client st xs) = nextId st \<and>
   console_error (foldl sweep_client st xs) = console_error st"
  by (induction xs arbitrary: st) (simp_all add: sweep_client_frame)

lemma pingInterval_frame:
  "wsConnections (pingInterval st) = wsConnections st"
  "clients (pingInterval st) = clients st"
  "nextId (pingInterval st) = nextId st"
  by (simp_all add: pingInterval_def foldl_sweep_frame)

lemma broadcast_client_frame:
  "broadcast_client d st c = Inr st' \<Longrightarrow>
   wsConnections st' = wsConnections st \<and> clients st' = clients st \<and> nextId st' = nextId st"
  by (auto simp: broadcast_client_def split: if_splits sum.splits)

lemma broadcast_client_runtime:
  "broadcast_client d st c = Inr st' \<Longrightarrow> WebSocket_defined st \<and> WebSocket_defined st'"
  by (auto simp: broadcast_client_def split: if_splits sum.splits)

lemma broadcast_client_raises:
  "\<not> WebSocket_defined st \<Longrightarrow> broadcast_client d st c = Inl ReferenceError"
  by (simp add: broadcast_client_def)

lemma broadcast_client_returns:
  "WebSocket_defined st \<Longrightarrow> \<exists>st'. broadcast_client d st c = Inr st'"
  by (simp add: broadcast_client_def split: sum.splits)

lemma forEach_broadcast_returns:
  "WebSocket_defined st \<Longrightarrow> \<exists>st'. forEach (broadcast_client d) xs st = Inr st'"
proof (induction xs arbitrary: st)
  case Nil
  show ?case by simp
next
  case (Cons x xs)
  obtain st1 where s1: "broadcast_client d st x = Inr st1"
    using broadcast_client_returns [OF Cons.prems] by blast
  from broadcast_client_runtime [OF s1] have "WebSocket_defined st1" by simp
  from Cons.IH [OF this] s1 show ?case by simp
qed

lemma forEach_broadcast_frame:
  "forEach (broadcast_client d) xs st = Inr st' \<Longrightarrow>
   wsConnections st' = wsConnections st \<and> clients st' = clients st \<and> nextId st' = nextId st"
proof (induction xs arbitrary: st)
  case Nil
  then show ?case by simp
next
  case (Cons x xs)
  from Cons.prems obtain st1 where s1: "broadcast_client d st x = Inr st1"
    and rest: "forEach (broadcast_client d) xs st1 = Inr st'"
    by (cases "broadcast_client d st x") auto
  from Cons.IH [OF rest] broadcast_client_frame [OF s1] show ?case by simp
qed

lemma broadcastToChannel_frame:
  "broadcastToChannel st ch d = Inr st' \<Longrightarrow>
   wsConnections st' = wsConnections st \<and> clients st' = clients st \<and> nextId st' = nextId st"
  by (auto simp: broadcastToChannel_def split: option.splits dest: forEach_broadcast_frame)

lemma on_close_frame:
  "clients (on_close st ws ch) = clients st"
  "nextId (on_close st ws ch) = nextId st"
  "sockets (on_close st ws ch) = sockets st"
  by (simp_all add: on_close_def Let_def split: option.splits)

subsection \<open>Membership\<close>

lemma members_eq: "wsConnections st' = wsConnections st \<Longrightarrow> members st' = members st"
  by (simp add: members_def fun_eq_iff)

lemma members_simps [simp]:
  "members (update_socket st ws c) = members st"
  "members (log_error st l) = members st"
  by (rule members_eq, simp)+

lemma members_on_close:
  "members (on_close st ws ch) ch' = (if ch' = ch then members st ch - {ws} else members st ch')"
  by (auto simp: members_def on_close_def set_delete_def Let_def filter_empty_conv split: option.splits)

lemma members_register:
  "members (register st ws ch) ch' = (if ch' = ch then insert ws (members st ch) else members st ch')"
  by (auto simp: members_def register_def set_add_def split: option.splits)

lemma wsConnections_on_connection:
  "wsConnections (on_connection st ws url) =
     (if parse_channel url \<in> set validChannels
      then wsConnections (register st ws (parse_channel url)) else wsConnections st)"
  by (simp add: on_connection_def Let_def split: sum.splits)

lemma members_accept:
  "members (accept st throws url) ch =
     (if parse_channel url \<in> set validChannels \<and> ch = parse_channel url
      then insert (nextId st) (members st ch) else members st ch)"
proof -
  let ?st0 = "st\<lparr>sockets := (sockets st)(nextId st := new_socket throws),
                 clients := clients st @ [nextId st], nextId := Suc (nextId st)\<rparr>"
  have m0: "members ?st0 = members st" by (rule members_eq) simp
  have "members (accept st throws url) ch =
        (if parse_channel url \<in> set validChannels
         then members (register ?st0 (nextId st) (parse_channel url)) ch else members ?st0 ch)"
    by (simp add: accept_def Let_def members_def wsConnections_on_connection)
  then show ?thesis by (simp add: members_register m0)
qed

lemma nextId_accept: "nextId (accept st throws url) = Suc (nextId st)"
  by (simp add: accept_def on_connection_def Let_def split: sum.splits)

subsection \<open>Steps of the event loop\<close>

lemma step_Connection: "step st (Connection throws url) = accept st throws url"
  by (simp add: step_def)

lemma step_Message_frame:
  "wsConnections (step st (Message ws m)) = wsConnections st \<and>
   nextId (step st (Message ws m)) = nextId st \<and> clients (step st (Message ws m)) = clients st"
  by (simp add: step_def on_message_frame split: option.splits)

lemma step_PongFrame_frame:
  "wsConnections (step st (PongFrame ws)) = wsConnections st \<and>
   nextId (step st (PongFrame ws)) = nextId st \<and> clients (step st (PongFrame ws)) = clients st"
  by (simp add: step_def on_pong_frame split: option.splits)

lemma step_Sweep_frame:
  "wsConnections (step st Sweep) = wsConnections st \<and>
   nextId (step st Sweep) = nextId st \<and> clients (step st Sweep) = clients st"
  by (simp add: step_def pingInterval_frame)

lemma step_Broadcast_frame:
  "wsConnections (step st (Broadcast ch d)) = wsConnections st \<and>
   nextId (step st (Broadcast ch d)) = nextId st \<and>
   clients (step st (Broadcast ch d)) = clients st"
proof (cases "broadcastToChannel st ch d")
  case (Inl e)
  then show ?thesis by (simp add: step_def)
next
  case (Inr st')
  with broadcastToChannel_frame [OF Inr] show ?thesis by (simp add: step_def)
qed

lemma step_Close_members:
  "members (step st (Close ws)) ch \<subseteq> members st ch"
proof -
  let ?st1 = "(update_socket st ws ((sockets st ws)\<lparr>readyState := CLOSED\<rparr>))
                   \<lparr>clients := set_delete ws (clients st)\<rparr>"
  have m: "members ?st1 = members st" by (rule members_eq) simp
  show ?thesis
  proof (cases "listening (sockets st ws)")
    case None
    then show ?thesis using m by (simp add: step_def Let_def)
  next
    case (Some chan)
    then have "step st (Close ws) = on_close ?st1 ws chan" by (simp add: step_def Let_def)
    then show ?thesis using m by (auto simp: members_on_close)
  qed
qed

lemma step_Close_nextId: "nextId (step st (Close ws)) = nextId st"
  by (simp add: step_def Let_def on_close_frame split: option.splits)

lemma members_step:
  "members (step st ev) ch \<subseteq> members st ch \<or>
   (nextId (step st ev) = Suc (nextId st) \<and>
    members (step st ev) ch \<subseteq> insert (nextId st) (members st ch))"
proof (cases ev)
  case (Connection throws url)
  then show ?thesis by (auto simp: step_Connection members_accept nextId_accept)
next
  case (Close ws)
  then show ?thesis using step_Close_members by simp
next
  case (Message ws m)
  then show ?thesis using step_Message_frame [of st] by (simp add: members_def)
next
  case (PongFrame ws)
  then show ?thesis using step_PongFrame_frame [of st] by (simp add: members_def)
next
  case Sweep
  then show ?thesis using step_Sweep_frame [of st] by (simp add: members_def)
next
  case (Broadcast ch d)
  then show ?thesis using step_Broadcast_frame [of st] by (simp add: members_def)
qed

lemma nextId_step: "nextId st \<le> nextId (step st ev)"
proof (cases ev)
  case (Connection throws url)
  then show ?thesis by (simp add: step_Connection nextId_accept)
next
  case (Close ws)
  then show ?thesis by (simp add: step_Close_nextId)
next
  case (Message ws m)
  then show ?thesis using step_Message_frame [of st] by simp
next
  case (PongFrame ws)
  then show ?thesis using step_PongFrame_frame [of st] by simp
next
  case Sweep
  then show ?thesis using step_Sweep_frame [of st] by simp
next
  case (Broadcast ch d)
  then show ?thesis using step_Broadcast_frame [of st] by simp
qed

lemma reachable_members_bound:
  "reachable st \<Longrightarrow> c \<in> members st ch \<Longrightarrow> c < nextId st"
proof (induction arbitrary: c ch rule: reachable.induct)
  case reachable_init
  then show ?case by (simp add: members_def init_server_def)
next
  case (reachable_step st ev)
  from members_step [of st ev ch] show ?case
  proof
    assume "members (step st ev) ch \<subseteq> members st ch"
    with reachable_step.prems have "c \<in> members st ch" by auto
    then have "c < nextId st" by (rule reachable_step.IH)
    with nextId_step [of st ev] show ?thesis by simp
  next
    assume a: "nextId (step st ev) = Suc (nextId st) \<and>
               members (step st ev) ch \<subseteq> insert (nextId st) (members st ch)"
    with reachable_step.prems have "c = nextId st \<or> c \<in> members st ch" by auto
    then show ?thesis
    proof
      assume "c = nextId st" with a show ?thesis by simp
    next
      assume "c \<in> members st ch"
      then have "c < nextId st" by (rule reachable_step.IH)
      with a show ?thesis by simp
    qed
  qed
qed

lemma step_never_member:
  assumes "ws < nextId st" and "\<forall>ch. ws \<notin> members st ch"
  shows "ws \<notin> members (step st ev) ch"
proof -
  from members_step [of st ev ch] show ?thesis
  proof
    assume "members (step st ev) ch \<subseteq> members st ch"
    with assms(2) show ?thesis by auto
  next
    assume "nextId (step st ev) = Suc (nextId st) \<and>
            members (step st ev) ch \<subseteq> insert (nextId st) (members st ch)"
    with assms show ?thesis by auto
  qed
qed

lemma run_never_member:
  "ws < nextId st \<Longrightarrow> (\<forall>ch. ws \<notin> members st ch) \<Longrightarrow> ws \<notin> members (run st evs) ch"
proof (induction evs arbitrary: st)
  case Nil
  then show ?case by (simp add: run_def)
next
  case (Cons ev evs)
  have a: "ws < nextId (step st ev)" using Cons.prems(1) nextId_step [of st ev] by simp
  have b: "\<forall>ch. ws \<notin> members (step st ev) ch"
    using step_never_member [OF Cons.prems] by simp
  from Cons.IH [OF a b] show ?case by (simp add: run_def)
qed

subsection \<open>The channel name of a request\<close>

lemma js_split_nonempty: "js_split sep s \<noteq> []"
  by (induction s) (auto split: list.splits)

lemma js_split_first:
  "js_index (js_split sep s) 0 = Some (takeWhile (\<lambda>c. c \<noteq> sep) s)"
proof (induction s)
  case Nil
  show ?case by simp
next
  case (Cons c cs)
  obtain p ps where ps: "js_split sep cs = p # ps"
    using js_split_nonempty [of sep cs] by (cases "js_split sep cs") auto
  with Cons show ?case by simp
qed

lemma js_split_second:
  "js_index (js_split sep s) (Suc 0) =
     (if sep \<in> set s
      then Some (takeWhile (\<lambda>c. c \<noteq> sep) (tl (dropWhile (\<lambda>c. c \<noteq> sep) s)))
      else None)"
proof (induction s)
  case Nil
  show ?case by simp
next
  case (Cons c cs)
  obtain p ps where ps: "js_split sep cs = p # ps"
    using js_split_nonempty [of sep cs] by (cases "js_split sep cs") auto
  show ?case
  proof (cases "c = sep")
    case True
    then show ?thesis using js_split_first [of sep cs] by simp
  next
    case False
    with Cons ps show ?thesis by simp
  qed
qed

lemma urlParts_eq: "urlParts url = js_split (CHR ''/'') (takeWhile (\<lambda>c. c \<noteq> CHR ''?'') url)"
  by (simp add: urlParts_def js_split_first)

lemma parse_channel_segment:
  "parse_channel url =
     (let path = takeWhile (\<lambda>c. c \<noteq> CHR ''?'') url;
          segment = takeWhile (\<lambda>c. c \<noteq> CHR ''/'') (tl (dropWhile (\<lambda>c. c \<noteq> CHR ''/'') path))
      in if CHR ''/'' \<in> set path \<and> segment \<noteq> [] then segment else ''default'')"
  by (simp add: parse_channel_def urlParts_eq js_split_second Let_def)

subsection \<open>Rejected connections\<close>

lemma parse_channel_default:
  "js_index (urlParts url) 1 = None \<or> js_index (urlParts url) 1 = Some [] \<Longrightarrow>
   parse_channel url = ''default''"
  by (auto simp: parse_channel_def)

lemma on_connection_invalid:
  "parse_channel url \<notin> set validChannels \<Longrightarrow>
   on_connection st ws url =
     update_socket (log_error st (invalid_channel_line (parse_channel url))) ws
       (ws_close (sockets st ws) 1008 ''Invalid channel'')"
  by (simp add: on_connection_def Let_def)

lemma accept_invalid_socket:
  "parse_channel url \<notin> set validChannels \<Longrightarrow>
   sockets (accept st throws url) (nextId st) =
     (new_socket throws)\<lparr>readyState := CLOSING, closeCode := Some (1008, ''Invalid channel'')\<rparr>"
  by (simp add: accept_def on_connection_invalid ws_close_def Let_def new_socket_def)

lemma accept_invalid_registry:
  "parse_channel url \<notin> set validChannels \<Longrightarrow>
   wsConnections (accept st throws url) = wsConnections st"
  by (simp add: accept_def on_connection_invalid Let_def)

lemma rejected_never_member:
  assumes "reachable st" and "parse_channel url \<notin> set validChannels"
  shows "nextId st \<notin> members (run (accept st throws url) evs) ch"
proof (rule run_never_member)
  show "nextId st < nextId (accept st throws url)" by (simp add: nextId_accept)
  show "\<forall>ch. nextId st \<notin> members (accept st throws url) ch"
    using assms reachable_members_bound [of st "nextId st"] by (auto simp: members_accept)
qed

section \<open>Claims about the connection handler\<close>

text \<open>
  C9. A request whose path has no non-empty first segment (\<^verbatim>\<open>urlParts[1]\<close> is
  undefined or the empty string, as for the bare path \<^verbatim>\<open>/\<close>) is given the channel
  name \<^verbatim>\<open>default\<close>, which is not in the whitelist: the socket is closed with code
  1008 and reason \<^verbatim>\<open>Invalid channel\<close>, the registry is left as it was, and in no
  later state is the socket a member of any channel.
\<close>

theorem missing_segment_rejected:
  assumes "js_index (urlParts url) 1 = None \<or> js_index (urlParts url) 1 = Some []"
    and "reachable st"
  shows "parse_channel url = ''default'' \<and> ''default'' \<notin> set validChannels \<and>
         sockets (accept st throws url) (nextId st) =
           (new_socket throws)\<lparr>readyState := CLOSING,
                                closeCode := Some (1008, ''Invalid channel'')\<rparr> \<and>
         wsConnections (accept st throws url) = wsConnections st \<and>
         (\<forall>evs ch. nextId st \<notin> members (run (accept st throws url) evs) ch)"
proof -
  have d: "parse_channel url = ''default''" using assms(1) by (rule parse_channel_default)
  have v: "parse_channel url \<notin> set validChannels" by (simp add: d validChannels_def)
  show ?thesis
    using d v accept_invalid_socket [OF v] accept_invalid_registry [OF v]
      rejected_never_member [OF assms(2) v] by simp
qed

theorem missing_segment_rejected_witness:
  "parse_channel ''/'' = ''default'' \<and>
   closeCode (sockets (accept init_server False ''/'') 0) = Some (1008, ''Invalid channel'') \<and>
   readyState (sockets (accept init_server False ''/'') 0) = CLOSING \<and>
   wsConnections (accept init_server False ''/'') ''default'' = None \<and>
   0 \<notin> members (run (accept init_server False ''/'') [Sweep, Close 0]) ''default''"
proof -
  have h: "js_index (urlParts ''/'') 1 = None \<or> js_index (urlParts ''/'') 1 = Some []"
    by (simp add: urlParts_def)
  have n: "nextId init_server = 0" by (simp add: init_server_def)
  from missing_segment_rejected [OF h reachable_init_server, of False]
  show ?thesis by (simp add: n init_server_def)
qed

text \<open>
  C2, as the specification words it, names the whitelist \<^verbatim>\<open>dashboard-stats\<close>,
  \<^verbatim>\<open>tender-requests\<close>, \<^verbatim>\<open>website-analytics\<close>. The handler's whitelist holds
  other names: a connection to \<^verbatim>\<open>/dashboard-stats\<close> is closed with 1008, and a
  connection to \<^verbatim>\<open>/DASHBOARD_STATS\<close>, a name outside the specification's list, is
  registered.
\<close>

theorem spec_whitelist_counterexample:
  "''dashboard-stats'' \<notin> set validChannels \<and>
   closeCode (sockets (accept init_server False ''/dashboard-stats'') 0) =
     Some (1008, ''Invalid channel'') \<and>
   ''DASHBOARD_STATS'' \<notin> set [''dashboard-stats'', ''tender-requests'', ''website-analytics''] \<and>
   closeCode (sockets (accept init_server False ''/DASHBOARD_STATS'') 0) = None \<and>
   wsConnections (accept init_server False ''/DASHBOARD_STATS'') ''DASHBOARD_STATS'' = Some [0]"
  by (simp add: validChannels_def accept_def on_connection_def parse_channel_def urlParts_def
      init_server_def Let_def ws_close_def new_socket_def register_def set_add_def ws_send_def)

text \<open>
  C2, amended. The valid channel names are exactly \<^verbatim>\<open>DASHBOARD_STATS\<close>,
  \<^verbatim>\<open>TENDER_REQUESTS\<close> and \<^verbatim>\<open>WEBSITE_ANALYTICS\<close>. The parsed channel name
  of a request is the text between the first and the second slash of its target, the
  query string stripped, and \<^verbatim>\<open>default\<close> when there is no such text. An accepted
  socket becomes a member of a channel if and only if its parsed channel name is valid,
  and then of that channel. A socket whose parsed channel name is not one of them is closed with
  code 1008, the registry is left as it was, and in no later state is the socket a
  member of any channel.
\<close>

theorem whitelist_gate:
  "set validChannels = {''DASHBOARD_STATS'', ''TENDER_REQUESTS'', ''WEBSITE_ANALYTICS''} \<and>
   parse_channel url =
     (let path = takeWhile (\<lambda>c. c \<noteq> CHR ''?'') url;
          segment = takeWhile (\<lambda>c. c \<noteq> CHR ''/'') (tl (dropWhile (\<lambda>c. c \<noteq> CHR ''/'') path))
      in if CHR ''/'' \<in> set path \<and> segment \<noteq> [] then segment else ''default'') \<and>
   (reachable st \<longrightarrow>
      (nextId st \<in> members (accept st throws url) ch) =
        (parse_channel url \<in> set validChannels \<and> ch = parse_channel url)) \<and>
   (reachable st \<longrightarrow> parse_channel url \<notin> set validChannels \<longrightarrow>
      sockets (accept st throws url) (nextId st) =
        (new_socket throws)\<lparr>readyState := CLOSING,
                             closeCode := Some (1008, ''Invalid channel'')\<rparr> \<and>
      wsConnections (accept st throws url) = wsConnections st \<and>
      (\<forall>evs ch'. nextId st \<notin> members (run (accept st throws url) evs) ch'))"
proof -
  have a: "set validChannels = {''DASHBOARD_STATS'', ''TENDER_REQUESTS'', ''WEBSITE_ANALYTICS''}"
    by (simp add: validChannels_def)
  have b: "reachable st \<longrightarrow> (nextId st \<in> members (accept st throws url) ch) =
        (parse_channel url \<in> set validChannels \<and> ch = parse_channel url)"
    using reachable_members_bound [of st "nextId st" ch] by (auto simp: members_accept)
  have c: "reachable st \<longrightarrow> parse_channel url \<notin> set validChannels \<longrightarrow>
      sockets (accept st throws url) (nextId st) =
        (new_socket throws)\<lparr>readyState := CLOSING,
                             closeCode := Some (1008, ''Invalid channel'')\<rparr> \<and>
      wsConnections (accept st throws url) = wsConnections st \<and>
      (\<forall>evs ch'. nextId st \<notin> members (run (accept st throws url) evs) ch')"
    using accept_invalid_socket [of url st throws] accept_invalid_registry [of url st throws]
      rejected_never_member [of st url throws] by blast
  show ?thesis by (intro conjI a b c parse_channel_segment)
qed

theorem whitelist_gate_witness:
  "parse_channel ''/ws/dashboard-stats?channel=DASHBOARD_STATS'' = ''ws'' \<and>
   ''ws'' \<notin> set validChannels \<and>
   closeCode (sockets (accept init_server False ''/ws/dashboard-stats?channel=DASHBOARD_STATS'') 0) =
     Some (1008, ''Invalid channel'') \<and>
   wsConnections (accept init_server False ''/ws/dashboard-stats?channel=DASHBOARD_STATS'') ''ws'' = None \<and>
   0 \<notin> members (run (accept init_server False ''/ws/dashboard-stats?channel=DASHBOARD_STATS'')
                  [Message 0 (WellFormed (Obj (Some ''PING'')))]) ''ws'' \<and>
   0 \<in> members (accept init_server False ''/TENDER_REQUESTS?token=t'') ''TENDER_REQUESTS''"
proof -
  have p: "parse_channel ''/ws/dashboard-stats?channel=DASHBOARD_STATS'' = ''ws''"
    by (simp add: parse_channel_def urlParts_def)
  have q: "parse_channel ''/TENDER_REQUESTS?token=t'' = ''TENDER_REQUESTS''"
    by (simp add: parse_channel_def urlParts_def)
  have v: "''ws'' \<notin> set validChannels" "''TENDER_REQUESTS'' \<in> set validChannels"
    by (simp_all add: validChannels_def)
  have n: "nextId init_server = 0" by (simp add: init_server_def)
  from whitelist_gate [where st = init_server and throws = False
        and url = "''/ws/dashboard-stats?channel=DASHBOARD_STATS''" and ch = "''ws''"]
    whitelist_gate [where st = init_server and throws = False
        and url = "''/TENDER_REQUESTS?token=t''" and ch = "''TENDER_REQUESTS''"]
    reachable_init_server p q v n
  show ?thesis by (simp add: init_server_def)
qed

section \<open>Broadcast\<close>

lemma broadcast_client_sockets:
  "broadcast_client d st x = Inr st' \<Longrightarrow>
   sockets st' =
     (if readyState (sockets st x) = OPEN \<and> \<not> sendThrows (sockets st x)
      then (case d of
              Json s \<Rightarrow> (sockets st)(x := (sockets st x)\<lparr>sent := sent (sockets st x) @ [Data s]\<rparr>)
            | Cyclic \<Rightarrow> sockets st)
      else sockets st)"
  by (auto simp: broadcast_client_def JSON_stringify_def ws_send_def
      split: if_splits payload.splits)

lemma broadcast_client_console:
  "broadcast_client d st x = Inr st' \<Longrightarrow>
   console_error st' =
     (if readyState (sockets st x) = OPEN \<and> (sendThrows (sockets st x) \<or> d = Cyclic)
      then console_error st @ [''Failed to send message to client:'']
      else console_error st)"
  by (auto simp: broadcast_client_def JSON_stringify_def ws_send_def
      split: if_splits payload.splits)

lemma forEach_broadcast_sockets:
  "forEach (broadcast_client d) xs st = Inr st' \<Longrightarrow> distinct xs \<Longrightarrow>
   sockets st' c =
     (if c \<in> set xs \<and> readyState (sockets st c) = OPEN \<and> \<not> sendThrows (sockets st c)
      then (case d of
              Json s \<Rightarrow> (sockets st c)\<lparr>sent := sent (sockets st c) @ [Data s]\<rparr>
            | Cyclic \<Rightarrow> sockets st c)
      else sockets st c)"
proof (induction xs arbitrary: st)
  case Nil
  then show ?case by simp
next
  case (Cons x xs)
  from Cons.prems(1) obtain st1 where s1: "broadcast_client d st x = Inr st1"
    and rest: "forEach (broadcast_client d) xs st1 = Inr st'"
    by (cases "broadcast_client d st x") auto
  from Cons.prems have dx: "distinct xs" and nx: "x \<notin> set xs" by simp_all
  note ih = Cons.IH [OF rest dx]
  note one = broadcast_client_sockets [OF s1]
  show ?case
  proof (cases "c = x")
    case True
    with nx ih have "sockets st' c = sockets st1 c" by simp
    with True one show ?thesis by (simp split: payload.splits)
  next
    case False
    with one have "sockets st1 c = sockets st c" by (simp split: payload.splits)
    with False ih show ?thesis by (simp split: payload.splits)
  qed
qed

lemma forEach_broadcast_console:
  "forEach (broadcast_client d) xs st = Inr st' \<Longrightarrow> distinct xs \<Longrightarrow>
   console_error st' =
     console_error st @
     replicate
       (length (filter (\<lambda>c. readyState (sockets st c) = OPEN \<and>
                             (sendThrows (sockets st c) \<or> d = Cyclic)) xs))
       ''Failed to send message to client:''"
proof (induction xs arbitrary: st)
  case Nil
  then show ?case by simp
next
  case (Cons x xs)
  from Cons.prems(1) obtain st1 where s1: "broadcast_client d st x = Inr st1"
    and rest: "forEach (broadcast_client d) xs st1 = Inr st'"
    by (cases "broadcast_client d st x") auto
  from Cons.prems have dx: "distinct xs" and nx: "x \<notin> set xs" by simp_all
  have same: "\<And>c. c \<in> set xs \<Longrightarrow> sockets st1 c = sockets st c"
    using broadcast_client_sockets [OF s1] nx by (auto split: payload.splits)
  have f: "filter (\<lambda>c. readyState (sockets st1 c) = OPEN \<and>
                        (sendThrows (sockets st1 c) \<or> d = Cyclic)) xs =
           filter (\<lambda>c. readyState (sockets st c) = OPEN \<and>
                        (sendThrows (sockets st c) \<or> d = Cyclic)) xs"
    by (rule filter_cong) (simp_all add: same)
  from Cons.IH [OF rest dx] f broadcast_client_console [OF s1]
  show ?case by (simp add: replicate_app_Cons_same)
qed

lemma broadcastToChannel_returns:
  "WebSocket_defined st \<Longrightarrow> \<exists>st'. broadcastToChannel st ch d = Inr st'"
  by (simp add: broadcastToChannel_def forEach_broadcast_returns split: option.splits)

lemma broadcastToChannel_raises:
  "\<not> WebSocket_defined st \<Longrightarrow> wsConnections st ch = Some (x # xs) \<Longrightarrow>
   broadcastToChannel st ch d = Inl ReferenceError"
  by (simp add: broadcastToChannel_def broadcast_client_raises)

text \<open>
  C1 does not hold of \<^verbatim>\<open>broadcastToChannel\<close> on a runtime without the global
  \<^verbatim>\<open>WebSocket\<close>. One client is registered under \<^verbatim>\<open>TENDER_REQUESTS\<close> and open. A
  broadcast to that channel reads \<^verbatim>\<open>WebSocket.OPEN\<close> for this member, before the
  \<^verbatim>\<open>try\<close>, and raises a ReferenceError: the member has received the CONNECTED
  envelope and nothing after it.
\<close>

theorem broadcast_without_global_delivers_nothing:
  "reachable (accept (init_server\<lparr>WebSocket_defined := False\<rparr>) False ''/TENDER_REQUESTS'') \<and>
   readyState (sockets (accept (init_server\<lparr>WebSocket_defined := False\<rparr>) False
                          ''/TENDER_REQUESTS'') 0) = OPEN \<and>
   wsConnections (accept (init_server\<lparr>WebSocket_defined := False\<rparr>) False ''/TENDER_REQUESTS'')
     ''TENDER_REQUESTS'' = Some [0] \<and>
   broadcastToChannel (accept (init_server\<lparr>WebSocket_defined := False\<rparr>) False ''/TENDER_REQUESTS'')
     ''TENDER_REQUESTS'' (Json ''{type:NEW_REQUEST}'') = Inl ReferenceError \<and>
   sent (sockets
           (step (accept (init_server\<lparr>WebSocket_defined := False\<rparr>) False ''/TENDER_REQUESTS'')
              (Broadcast ''TENDER_REQUESTS'' (Json ''{type:NEW_REQUEST}''))) 0) =
     [Connected ''TENDER_REQUESTS'']"
proof -
  have p: "parse_channel ''/TENDER_REQUESTS'' = ''TENDER_REQUESTS''"
    by (simp add: parse_channel_def urlParts_def)
  have r: "reachable (accept (init_server\<lparr>WebSocket_defined := False\<rparr>) False ''/TENDER_REQUESTS'')"
    using reachable_step [OF reachable_init, of False "Connection False ''/TENDER_REQUESTS''"]
    by (simp add: step_Connection)
  have e: "readyState (sockets (accept (init_server\<lparr>WebSocket_defined := False\<rparr>) False
                          ''/TENDER_REQUESTS'') 0) = OPEN \<and>
   wsConnections (accept (init_server\<lparr>WebSocket_defined := False\<rparr>) False ''/TENDER_REQUESTS'')
     ''TENDER_REQUESTS'' = Some [0] \<and>
   broadcastToChannel (accept (init_server\<lparr>WebSocket_defined := False\<rparr>) False ''/TENDER_REQUESTS'')
     ''TENDER_REQUESTS'' (Json ''{type:NEW_REQUEST}'') = Inl ReferenceError \<and>
   sent (sockets
           (step (accept (init_server\<lparr>WebSocket_defined := False\<rparr>) False ''/TENDER_REQUESTS'')
              (Broadcast ''TENDER_REQUESTS'' (Json ''{type:NEW_REQUEST}''))) 0) =
     [Connected ''TENDER_REQUESTS'']"
    by (simp add: step_def accept_def on_connection_def p validChannels_def init_server_def Let_def
        register_def set_add_def ws_send_def new_socket_def broadcastToChannel_def
        broadcast_client_def)
  from r e show ?thesis by (rule conjI)
qed

text \<open>
  C6 does not hold of \<^verbatim>\<open>broadcastToChannel\<close> on a runtime without the global
  \<^verbatim>\<open>WebSocket\<close>. With two clients registered under \<^verbatim>\<open>TENDER_REQUESTS\<close>, a
  broadcast to that channel raises a ReferenceError to its caller; a broadcast to a
  channel without an entry returns.
\<close>

theorem broadcast_throws_without_global:
  "wsConnections
     (accept (accept (init_server\<lparr>WebSocket_defined := False\<rparr>) False ''/TENDER_REQUESTS'')
        False ''/TENDER_REQUESTS'') ''TENDER_REQUESTS'' = Some [0, 1] \<and>
   broadcastToChannel
     (accept (accept (init_server\<lparr>WebSocket_defined := False\<rparr>) False ''/TENDER_REQUESTS'')
        False ''/TENDER_REQUESTS'')
     ''TENDER_REQUESTS'' (Json ''{type:STATS_UPDATE}'') = Inl ReferenceError \<and>
   broadcastToChannel
     (accept (accept (init_server\<lparr>WebSocket_defined := False\<rparr>) False ''/TENDER_REQUESTS'')
        False ''/TENDER_REQUESTS'')
     ''DASHBOARD_STATS'' (Json ''{type:STATS_UPDATE}'') =
     Inr (accept (accept (init_server\<lparr>WebSocket_defined := False\<rparr>) False ''/TENDER_REQUESTS'')
            False ''/TENDER_REQUESTS'')"
proof -
  have p: "parse_channel ''/TENDER_REQUESTS'' = ''TENDER_REQUESTS''"
    by (simp add: parse_channel_def urlParts_def)
  show ?thesis
    by (simp add: accept_def on_connection_def p validChannels_def init_server_def Let_def
        register_def set_add_def ws_send_def new_socket_def broadcastToChannel_def
        broadcast_client_def)
qed

text \<open>
  X4. On a runtime that defines the global \<^verbatim>\<open>WebSocket\<close>, for every registry state,
  channel name and payload, a call of \<^verbatim>\<open>broadcastToChannel\<close> returns, with the
  registry unchanged, and is a no-op when the channel has no entry. Otherwise every
  member of the channel that is open and whose \<^verbatim>\<open>send\<close> does not raise receives
  exactly one frame, the serialised payload, when the payload serialises; every other
  socket (a member that is not open or whose \<^verbatim>\<open>send\<close> raises, any socket outside
  this channel's set, and every socket when the payload does not serialise) is left
  exactly as it was.
\<close>

theorem broadcast_delivery:
  assumes "WebSocket_defined st"
  shows "\<exists>st'. broadcastToChannel st ch d = Inr st' \<and>
     wsConnections st' = wsConnections st \<and> clients st' = clients st \<and>
     (wsConnections st ch = None \<longrightarrow> st' = st) \<and>
     (\<forall>xs. wsConnections st ch = Some xs \<longrightarrow> distinct xs \<longrightarrow>
        (\<forall>c. sockets st' c =
           (if c \<in> set xs \<and> readyState (sockets st c) = OPEN \<and> \<not> sendThrows (sockets st c)
            then (case d of
                    Json s \<Rightarrow> (sockets st c)\<lparr>sent := sent (sockets st c) @ [Data s]\<rparr>
                  | Cyclic \<Rightarrow> sockets st c)
            else sockets st c)))"
proof -
  obtain st' where r: "broadcastToChannel st ch d = Inr st'"
    using broadcastToChannel_returns [OF assms] by blast
  have a: "wsConnections st' = wsConnections st \<and> clients st' = clients st"
    using broadcastToChannel_frame [OF r] by simp
  have b: "wsConnections st ch = None \<longrightarrow> st' = st"
    using r by (auto simp: broadcastToChannel_def)
  have c: "\<forall>xs. wsConnections st ch = Some xs \<longrightarrow> distinct xs \<longrightarrow>
        (\<forall>c. sockets st' c =
           (if c \<in> set xs \<and> readyState (sockets st c) = OPEN \<and> \<not> sendThrows (sockets st c)
            then (case d of
                    Json s \<Rightarrow> (sockets st c)\<lparr>sent := sent (sockets st c) @ [Data s]\<rparr>
                  | Cyclic \<Rightarrow> sockets st c)
            else sockets st c))"
  proof (intro allI impI)
    fix xs c
    assume "wsConnections st ch = Some xs" and d: "distinct xs"
    with r have "forEach (broadcast_client d) xs st = Inr st'"
      by (simp add: broadcastToChannel_def)
    from forEach_broadcast_sockets [OF this d]
    show "sockets st' c =
           (if c \<in> set xs \<and> readyState (sockets st c) = OPEN \<and> \<not> sendThrows (sockets st c)
            then (case d of
                    Json s \<Rightarrow> (sockets st c)\<lparr>sent := sent (sockets st c) @ [Data s]\<rparr>
                  | Cyclic \<Rightarrow> sockets st c)
            else sockets st c)" .
  qed
  show ?thesis
    by (rule exI [of _ st']) (intro conjI r a [THEN conjunct1] a [THEN conjunct2] b c)
qed

theorem broadcast_delivery_witness:
  "\<exists>st'. broadcastToChannel
           (accept (accept (accept init_server False ''/TENDER_REQUESTS'') False ''/DASHBOARD_STATS'')
              False ''/TENDER_REQUESTS'')
           ''TENDER_REQUESTS'' (Json ''{}'') = Inr st' \<and>
         sent (sockets st' 0) = [Connected ''TENDER_REQUESTS'', Data ''{}''] \<and>
         sent (sockets st' 1) = [Connected ''DASHBOARD_STATS''] \<and>
         sent (sockets st' 2) = [Connected ''TENDER_REQUESTS'', Data ''{}'']"
proof -
  let ?st = "accept (accept (accept init_server False ''/TENDER_REQUESTS'') False ''/DASHBOARD_STATS'')
              False ''/TENDER_REQUESTS''"
  have p: "parse_channel ''/TENDER_REQUESTS'' = ''TENDER_REQUESTS''"
          "parse_channel ''/DASHBOARD_STATS'' = ''DASHBOARD_STATS''"
    by (simp_all add: parse_channel_def urlParts_def)
  have reg: "wsConnections ?st ''TENDER_REQUESTS'' = Some [0, 2]"
    by (simp add: accept_def on_connection_def p validChannels_def init_server_def Let_def
        register_def set_add_def ws_send_def new_socket_def)
  have s: "sockets ?st 0 = (new_socket False)\<lparr>sent := [Connected ''TENDER_REQUESTS''],
                               listening := Some ''TENDER_REQUESTS'', isAlive := Some True\<rparr>"
          "sockets ?st (Suc 0) = (new_socket False)\<lparr>sent := [Connected ''DASHBOARD_STATS''],
                               listening := Some ''DASHBOARD_STATS'', isAlive := Some True\<rparr>"
          "sockets ?st 2 = (new_socket False)\<lparr>sent := [Connected ''TENDER_REQUESTS''],
                               listening := Some ''TENDER_REQUESTS'', isAlive := Some True\<rparr>"
    by (simp_all add: accept_def on_connection_def p validChannels_def init_server_def Let_def
        register_def set_add_def ws_send_def new_socket_def)
  have g: "WebSocket_defined ?st"
    by (simp add: accept_def on_connection_def p validChannels_def init_server_def Let_def
        register_def ws_send_def new_socket_def)
  from broadcast_delivery [OF g, where ch = "''TENDER_REQUESTS''" and d = "Json ''{}''"]
  obtain st' where r: "broadcastToChannel ?st ''TENDER_REQUESTS'' (Json ''{}'') = Inr st'"
    and c: "\<forall>xs. wsConnections ?st ''TENDER_REQUESTS'' = Some xs \<longrightarrow> distinct xs \<longrightarrow>
        (\<forall>c. sockets st' c =
           (if c \<in> set xs \<and> readyState (sockets ?st c) = OPEN \<and> \<not> sendThrows (sockets ?st c)
            then (case Json ''{}'' of
                    Json s \<Rightarrow> (sockets ?st c)\<lparr>sent := sent (sockets ?st c) @ [Data s]\<rparr>
                  | Cyclic \<Rightarrow> sockets ?st c)
            else sockets ?st c))"
    by blast
  from c reg have all: "\<forall>c. sockets st' c =
           (if c \<in> set [0, 2] \<and> readyState (sockets ?st c) = OPEN \<and> \<not> sendThrows (sockets ?st c)
            then (sockets ?st c)\<lparr>sent := sent (sockets ?st c) @ [Data ''{}'']\<rparr>
            else sockets ?st c)"
    by simp
  have "sent (sockets st' 0) = [Connected ''TENDER_REQUESTS'', Data ''{}'']"
       "sent (sockets st' 1) = [Connected ''DASHBOARD_STATS'']"
       "sent (sockets st' 2) = [Connected ''TENDER_REQUESTS'', Data ''{}'']"
    using all [THEN spec, of 0] all [THEN spec, of 1] all [THEN spec, of 2]
    by (simp_all add: s new_socket_def)
  with r show ?thesis by blast
qed

text \<open>
  X5. On a runtime that defines the global \<^verbatim>\<open>WebSocket\<close>, \<^verbatim>\<open>broadcastToChannel\<close>
  never raises to its caller, whatever the registry, the channel name and the payload.
  Each failure inside the loop (a \<^verbatim>\<open>send\<close> that raises, a payload that does not
  serialise) writes one line to \<^verbatim>\<open>console.error\<close>, and whatever fails on other
  members, every open member whose own \<^verbatim>\<open>send\<close> does not raise receives the
  envelope.
\<close>

theorem broadcast_never_throws:
  assumes "WebSocket_defined st"
  shows "(\<forall>e. broadcastToChannel st ch d \<noteq> Inl e) \<and>
   (\<forall>xs st'. wsConnections st ch = Some xs \<longrightarrow> distinct xs \<longrightarrow>
        broadcastToChannel st ch d = Inr st' \<longrightarrow>
        console_error st' =
          console_error st @
          replicate
            (length (filter (\<lambda>c. readyState (sockets st c) = OPEN \<and>
                                  (sendThrows (sockets st c) \<or> d = Cyclic)) xs))
            ''Failed to send message to client:'' \<and>
        (\<forall>s. d = Json s \<longrightarrow>
           (\<forall>c\<in>set xs. readyState (sockets st c) = OPEN \<longrightarrow> \<not> sendThrows (sockets st c) \<longrightarrow>
              sent (sockets st' c) = sent (sockets st c) @ [Data s])))"
proof (intro conjI allI impI ballI)
  fix e
  show "broadcastToChannel st ch d \<noteq> Inl e"
    using broadcastToChannel_returns [OF assms, of ch d] by auto
next
  fix xs st'
  assume "wsConnections st ch = Some xs" and "distinct xs"
    and "broadcastToChannel st ch d = Inr st'"
  then have f: "forEach (broadcast_client d) xs st = Inr st'"
    by (simp add: broadcastToChannel_def)
  from forEach_broadcast_console [OF f \<open>distinct xs\<close>]
  show "console_error st' =
          console_error st @
          replicate
            (length (filter (\<lambda>c. readyState (sockets st c) = OPEN \<and>
                                  (sendThrows (sockets st c) \<or> d = Cyclic)) xs))
            ''Failed to send message to client:''" .
next
  fix xs st' s c
  assume "wsConnections st ch = Some xs" and dx: "distinct xs"
    and "broadcastToChannel st ch d = Inr st'" and d: "d = Json s"
    and c: "c \<in> set xs" "readyState (sockets st c) = OPEN" "\<not> sendThrows (sockets st c)"
  then have f: "forEach (broadcast_client d) xs st = Inr st'"
    by (simp add: broadcastToChannel_def)
  from forEach_broadcast_sockets [OF f dx, of c] c d
  show "sent (sockets st' c) = sent (sockets st c) @ [Data s]" by simp
qed

theorem broadcast_never_throws_witness:
  "broadcastToChannel
     (init_server\<lparr>wsConnections := [''TENDER_REQUESTS'' \<mapsto> [0, 1, 2]],
                  sockets := (\<lambda>_. new_socket False)(1 := new_socket True)\<rparr>)
     ''TENDER_REQUESTS'' (Json ''{}'') \<noteq> Inl SendError \<and>
   (\<exists>st'. broadcastToChannel
             (init_server\<lparr>wsConnections := [''TENDER_REQUESTS'' \<mapsto> [0, 1, 2]],
                          sockets := (\<lambda>_. new_socket False)(1 := new_socket True)\<rparr>)
             ''TENDER_REQUESTS'' (Json ''{}'') = Inr st' \<and>
           console_error st' = [''Failed to send message to client:''] \<and>
           sent (sockets st' 0) = [Data ''{}''] \<and> sent (sockets st' 2) = [Data ''{}''])"
proof -
  let ?st = "init_server\<lparr>wsConnections := [''TENDER_REQUESTS'' \<mapsto> [0, 1, 2]],
                          sockets := (\<lambda>_. new_socket False)(1 := new_socket True)\<rparr>"
  have g: "WebSocket_defined ?st" by (simp add: init_server_def)
  note t = broadcast_never_throws [OF g, where ch = "''TENDER_REQUESTS''" and d = "Json ''{}''"]
  obtain st' where r: "broadcastToChannel ?st ''TENDER_REQUESTS'' (Json ''{}'') = Inr st'"
    using t [THEN conjunct1] by (cases "broadcastToChannel ?st ''TENDER_REQUESTS'' (Json ''{}'')") auto
  have reg: "wsConnections ?st ''TENDER_REQUESTS'' = Some [0, 1, 2]" by simp
  have dx: "distinct [0::nat, 1, 2]" by simp
  from t [THEN conjunct2, rule_format, OF reg dx r]
  have "console_error st' = [''Failed to send message to client:''] \<and>
        sent (sockets st' 0) = [Data ''{}''] \<and> sent (sockets st' 2) = [Data ''{}'']"
    by (simp add: init_server_def new_socket_def)
  with r t [THEN conjunct1] show ?thesis by blast
qed

section \<open>Server: invariants of the reachable states\<close>

subsection \<open>How a step changes one socket\<close>

lemma on_message_socket_other:
  "c \<noteq> ws \<Longrightarrow> sockets (on_message st ws m) c = sockets st c"
  by (auto simp: on_message_def message_try_def JSON_parse_def type_of_def ws_send_def Let_def
      split: message.splits data.splits)

lemma on_message_static:
  "listening (sockets (on_message st ws m) c) = listening (sockets st c) \<and>
   sendThrows (sockets (on_message st ws m) c) = sendThrows (sockets st c) \<and>
   readyState (sockets (on_message st ws m) c) = readyState (sockets st c) \<and>
   terminated (sockets (on_message st ws m) c) = terminated (sockets st c) \<and>
   pings (sockets (on_message st ws m) c) = pings (sockets st c) \<and>
   closeCode (sockets (on_message st ws m) c) = closeCode (sockets st c)"
  by (auto simp: on_message_def message_try_def JSON_parse_def type_of_def ws_send_def Let_def
      split: message.splits data.splits)

lemma on_message_isAlive:
  "isAlive (sockets (on_message st ws m) c) =
     (if c = ws \<and> m = WellFormed (Obj (Some ''PING'')) \<and> \<not> sendThrows (sockets st ws)
      then Some True else isAlive (sockets st c))"
  by (auto simp: on_message_def message_try_def JSON_parse_def type_of_def ws_send_def Let_def
      split: message.splits data.splits)

lemma sweep_client_socket:
  "sockets (sweep_client st x) c =
     (if c = x
      then (if isAlive (sockets st c) = Some False then ws_terminate (sockets st c)
            else ws_ping ((sockets st c)\<lparr>isAlive := Some False\<rparr>))
      else sockets st c)"
  by (simp add: sweep_client_def)

lemma foldl_sweep_sockets:
  "distinct xs \<Longrightarrow>
   sockets (foldl sweep_client st xs) c =
     (if c \<in> set xs
      then (if isAlive (sockets st c) = Some False then ws_terminate (sockets st c)
            else ws_ping ((sockets st c)\<lparr>isAlive := Some False\<rparr>))
      else sockets st c)"
proof (induction xs arbitrary: st)
  case Nil
  show ?case by simp
next
  case (Cons x xs)
  then have dx: "distinct xs" and nx: "x \<notin> set xs" by simp_all
  show ?case
    using Cons.IH [OF dx, of "sweep_client st x"] nx
    by (auto simp: sweep_client_socket)
qed

lemma pingInterval_socket:
  "distinct (clients st) \<Longrightarrow>
   sockets (pingInterval st) c =
     (if c \<in> set (clients st)
      then (if isAlive (sockets st c) = Some False then ws_terminate (sockets st c)
            else ws_ping ((sockets st c)\<lparr>isAlive := Some False\<rparr>))
      else sockets st c)"
  by (simp add: pingInterval_def foldl_sweep_sockets)

lemma foldl_sweep_static:
  "listening (sockets (foldl sweep_client st xs) c) = listening (sockets st c) \<and>
   sendThrows (sockets (foldl sweep_client st xs) c) = sendThrows (sockets st c)"
  by (induction xs arbitrary: st)
     (simp_all add: sweep_client_socket ws_terminate_def ws_ping_def)

lemma forEach_broadcast_static:
  "forEach (broadcast_client d) xs st = Inr st' \<Longrightarrow>
   listening (sockets st' c) = listening (sockets st c) \<and>
   sendThrows (sockets st' c) = sendThrows (sockets st c) \<and>
   isAlive (sockets st' c) = isAlive (sockets st c) \<and>
   readyState (sockets st' c) = readyState (sockets st c) \<and>
   terminated (sockets st' c) = terminated (sockets st c)"
proof (induction xs arbitrary: st)
  case Nil
  then show ?case by simp
next
  case (Cons x xs)
  from Cons.prems(1) obtain st1 where s1: "broadcast_client d st x = Inr st1"
    and rest: "forEach (broadcast_client d) xs st1 = Inr st'"
    by (cases "broadcast_client d st x") auto
  from Cons.IH [OF rest] broadcast_client_sockets [OF s1]
  show ?case by (auto split: payload.splits if_splits)
qed

lemma accept_socket_other:
  "c \<noteq> nextId st \<Longrightarrow> sockets (accept st throws url) c = sockets st c"
  by (simp add: accept_def on_connection_def Let_def split: sum.splits)

lemma accept_socket_new:
  "sockets (accept st throws url) (nextId st) =
     (if parse_channel url \<notin> set validChannels
      then (new_socket throws)\<lparr>readyState := CLOSING, closeCode := Some (1008, ''Invalid channel'')\<rparr>
      else if throws
      then (new_socket throws)\<lparr>readyState := CLOSING,
                                closeCode := Some (1011, ''Internal Server Error'')\<rparr>
      else (new_socket throws)\<lparr>sent := [Connected (parse_channel url)],
                                listening := Some (parse_channel url), isAlive := Some True\<rparr>)"
  by (simp add: accept_def on_connection_def Let_def ws_send_def ws_close_def new_socket_def)

lemma accept_clients: "clients (accept st throws url) = clients st @ [nextId st]"
  by (simp add: accept_def on_connection_def Let_def split: sum.splits)

text \<open>Apart from a new connection, no step touches the handlers or the transport of a socket.\<close>

lemma step_static:
  "c \<noteq> nextId st \<or> (\<forall>throws url. ev \<noteq> Connection throws url) \<Longrightarrow>
   listening (sockets (step st ev) c) = listening (sockets st c) \<and>
   sendThrows (sockets (step st ev) c) = sendThrows (sockets st c)"
proof (cases ev)
  case (Connection throws url)
  assume "c \<noteq> nextId st \<or> (\<forall>throws url. ev \<noteq> Connection throws url)"
  with Connection have "c \<noteq> nextId st" by blast
  with Connection show ?thesis by (simp add: step_Connection accept_socket_other)
next
  case (Message ws m)
  then show ?thesis by (simp add: step_def on_message_static split: option.splits)
next
  case (PongFrame ws)
  then show ?thesis by (simp add: step_def on_pong_def split: option.splits)
next
  case (Close ws)
  then show ?thesis by (simp add: step_def Let_def on_close_frame split: option.splits)
next
  case Sweep
  then show ?thesis by (simp add: step_def pingInterval_def foldl_sweep_static)
next
  case (Broadcast ch d)
  show ?thesis
  proof (cases "broadcastToChannel st ch d")
    case (Inl e)
    with Broadcast show ?thesis by (simp add: step_def)
  next
    case (Inr st')
    then have "listening (sockets st' c) = listening (sockets st c) \<and>
               sendThrows (sockets st' c) = sendThrows (sockets st c)"
      by (auto simp: broadcastToChannel_def split: option.splits dest: forEach_broadcast_static)
    with Broadcast Inr show ?thesis by (simp add: step_def)
  qed
qed


subsection \<open>Invariants of the reachable states\<close>

lemma step_frame_other:
  "(case ev of Connection t url \<Rightarrow> False | Close ws \<Rightarrow> False | _ \<Rightarrow> True) \<Longrightarrow>
   wsConnections (step st ev) = wsConnections st \<and> nextId (step st ev) = nextId st \<and>
   clients (step st ev) = clients st"
  by (cases ev)
     (simp_all add: step_Message_frame step_PongFrame_frame step_Sweep_frame step_Broadcast_frame)

lemma wsConnections_accept:
  "wsConnections (accept st throws url) =
     (if parse_channel url \<in> set validChannels
      then (wsConnections st)
             (parse_channel url \<mapsto>
                set_add (nextId st)
                  (case wsConnections st (parse_channel url) of None \<Rightarrow> [] | Some xs \<Rightarrow> xs))
      else wsConnections st)"
  by (simp add: accept_def Let_def wsConnections_on_connection register_def)

lemma wsConnections_on_close:
  "wsConnections (on_close st ws ch) =
     (case wsConnections st ch of
        None \<Rightarrow> wsConnections st
      | Some xs \<Rightarrow>
          if set_delete ws xs = [] then (wsConnections st)(ch := None)
          else (wsConnections st)(ch \<mapsto> set_delete ws xs))"
  by (simp add: on_close_def Let_def split: option.splits)

lemma wsConnections_step_Close:
  "wsConnections (step st (Close ws)) =
     (case listening (sockets st ws) of
        None \<Rightarrow> wsConnections st
      | Some chn \<Rightarrow>
          (case wsConnections st chn of
             None \<Rightarrow> wsConnections st
           | Some xs \<Rightarrow>
               if set_delete ws xs = [] then (wsConnections st)(chn := None)
               else (wsConnections st)(chn \<mapsto> set_delete ws xs)))"
  by (simp add: step_def Let_def wsConnections_on_close split: option.splits)

lemma clients_step_Close: "clients (step st (Close ws)) = set_delete ws (clients st)"
  by (simp add: step_def Let_def on_close_frame split: option.splits)

lemma set_add_props: "set_add x xs \<noteq> [] \<and> (distinct xs \<longrightarrow> distinct (set_add x xs))"
  by (auto simp: set_add_def)

lemma set_delete_distinct: "distinct xs \<Longrightarrow> distinct (set_delete x xs)"
  by (simp add: set_delete_def)

lemma reachable_entries:
  "reachable st \<Longrightarrow> wsConnections st ch = Some xs \<Longrightarrow> xs \<noteq> [] \<and> distinct xs"
proof (induction arbitrary: ch xs rule: reachable.induct)
  case reachable_init
  then show ?case by (simp add: init_server_def)
next
  case (reachable_step st ev)
  show ?case
  proof (cases ev)
    case (Connection throws url)
    show ?thesis
    proof (cases "parse_channel url \<in> set validChannels \<and> ch = parse_channel url")
      case True
      let ?old = "case wsConnections st ch of None \<Rightarrow> [] | Some ys \<Rightarrow> ys"
      from True Connection reachable_step.prems
      have xs: "xs = set_add (nextId st) ?old"
        by (simp add: step_Connection wsConnections_accept)
      have "distinct ?old"
        using reachable_step.IH [of ch] by (cases "wsConnections st ch") simp_all
      with xs set_add_props [of "nextId st" ?old] show ?thesis by simp
    next
      case False
      with Connection reachable_step.prems have "wsConnections st ch = Some xs"
        by (auto simp: step_Connection wsConnections_accept split: if_splits)
      then show ?thesis by (rule reachable_step.IH)
    qed
  next
    case (Close ws)
    with reachable_step.prems
    have "wsConnections st ch = Some xs \<or>
          (\<exists>ys. wsConnections st ch = Some ys \<and> xs = set_delete ws ys \<and> xs \<noteq> [])"
      by (auto simp: wsConnections_step_Close split: option.splits if_splits)
    then show ?thesis
    proof
      assume "wsConnections st ch = Some xs"
      then show ?thesis by (rule reachable_step.IH)
    next
      assume "\<exists>ys. wsConnections st ch = Some ys \<and> xs = set_delete ws ys \<and> xs \<noteq> []"
      then obtain ys where ys: "wsConnections st ch = Some ys" "xs = set_delete ws ys" "xs \<noteq> []"
        by blast
      from reachable_step.IH [OF ys(1)] ys show ?thesis by (simp add: set_delete_distinct)
    qed
  next
    case (Message ws m)
    with reachable_step.prems step_frame_other [of ev st] have "wsConnections st ch = Some xs"
      by simp
    then show ?thesis by (rule reachable_step.IH)
  next
    case (PongFrame ws)
    with reachable_step.prems step_frame_other [of ev st] have "wsConnections st ch = Some xs"
      by simp
    then show ?thesis by (rule reachable_step.IH)
  next
    case Sweep
    with reachable_step.prems step_frame_other [of ev st] have "wsConnections st ch = Some xs"
      by simp
    then show ?thesis by (rule reachable_step.IH)
  next
    case (Broadcast ch' d)
    with reachable_step.prems step_frame_other [of ev st] have "wsConnections st ch = Some xs"
      by simp
    then show ?thesis by (rule reachable_step.IH)
  qed
qed

lemma reachable_clients:
  "reachable st \<Longrightarrow> distinct (clients st) \<and> (\<forall>c\<in>set (clients st). c < nextId st)"
proof (induction rule: reachable.induct)
  case reachable_init
  show ?case by (simp add: init_server_def)
next
  case (reachable_step st ev)
  show ?case
  proof (cases ev)
    case (Connection throws url)
    with reachable_step.IH show ?thesis
      by (auto simp: step_Connection accept_clients nextId_accept)
  next
    case (Close ws)
    with reachable_step.IH show ?thesis
      by (auto simp: clients_step_Close step_Close_nextId set_delete_def)
  next
    case (Message ws m)
    with reachable_step.IH step_frame_other [of ev st] show ?thesis by simp
  next
    case (PongFrame ws)
    with reachable_step.IH step_frame_other [of ev st] show ?thesis by simp
  next
    case Sweep
    with reachable_step.IH step_frame_other [of ev st] show ?thesis by simp
  next
    case (Broadcast ch' d)
    with reachable_step.IH step_frame_other [of ev st] show ?thesis by simp
  qed
qed

lemma members_step_Close_lower:
  "members st ch - {ws} \<subseteq> members (step st (Close ws)) ch"
  by (auto simp: members_def wsConnections_step_Close set_delete_def filter_empty_conv
      split: option.splits if_splits)

lemma reachable_listening:
  "reachable st \<Longrightarrow> listening (sockets st c) = Some chn \<Longrightarrow>
   c < nextId st \<and> \<not> sendThrows (sockets st c) \<and>
   (\<forall>ch. c \<in> members st ch \<longrightarrow> ch = chn) \<and>
   (c \<in> set (clients st) \<longrightarrow> c \<in> members st chn)"
proof (induction rule: reachable.induct)
  case reachable_init
  then show ?case by (simp add: init_server_def new_socket_def)
next
  case (reachable_step st ev)
  note bound = reachable_members_bound [OF reachable_step.hyps]
  show ?case
  proof (cases "c = nextId st \<and> (\<exists>throws url. ev = Connection throws url)")
    case True
    then obtain throws url where ev: "ev = Connection throws url" and c: "c = nextId st"
      by blast
    from reachable_step.prems ev c
    have v: "parse_channel url \<in> set validChannels" and t: "\<not> throws"
      and chn: "chn = parse_channel url"
      by (auto simp: step_Connection accept_socket_new new_socket_def split: if_splits)
    have nm: "\<And>ch. c \<notin> members st ch" using bound c by blast
    show ?thesis
      using ev c v t chn nm
      by (simp add: step_Connection nextId_accept accept_socket_new members_accept new_socket_def)
  next
    case False
    then have alt: "c \<noteq> nextId st \<or> (\<forall>throws url. ev \<noteq> Connection throws url)" by blast
    from step_static [OF alt] reachable_step.prems
    have l: "listening (sockets st c) = Some chn"
      and s: "sendThrows (sockets (step st ev) c) = sendThrows (sockets st c)" by simp_all
    note ih = reachable_step.IH [OF l]
    show ?thesis
    proof (cases ev)
      case (Connection throws url)
      with alt have "c \<noteq> nextId st" by blast
      with Connection ih s show ?thesis
        by (auto simp: step_Connection nextId_accept members_accept accept_clients)
    next
      case (Close ws)
      have up: "\<And>ch. members (step st (Close ws)) ch \<subseteq> members st ch"
        by (rule step_Close_members)
      have lo: "members st chn - {ws} \<subseteq> members (step st (Close ws)) chn"
        by (rule members_step_Close_lower)
      from Close ih s up lo show ?thesis
        by (auto simp: step_Close_nextId clients_step_Close set_delete_def)
    next
      case (Message ws m)
      with ih s step_frame_other [of ev st] show ?thesis by (simp add: members_def)
    next
      case (PongFrame ws)
      with ih s step_frame_other [of ev st] show ?thesis by (simp add: members_def)
    next
      case Sweep
      with ih s step_frame_other [of ev st] show ?thesis by (simp add: members_def)
    next
      case (Broadcast ch' d)
      with ih s step_frame_other [of ev st] show ?thesis by (simp add: members_def)
    qed
  qed
qed

subsection \<open>The close handler\<close>

lemma on_close_idem: "on_close (on_close st ws ch) ws ch = on_close st ws ch"
proof (cases "wsConnections st ch")
  case None
  then show ?thesis by (simp add: on_close_def)
next
  case (Some xs)
  show ?thesis
  proof (cases "set_delete ws xs = []")
    case True
    with Some show ?thesis by (simp add: on_close_def Let_def)
  next
    case False
    have "set_delete ws (set_delete ws xs) = set_delete ws xs" by (simp add: set_delete_def)
    with Some False show ?thesis by (simp add: on_close_def Let_def)
  qed
qed

lemma on_close_last:
  "members st ch \<subseteq> {ws} \<Longrightarrow> wsConnections (on_close st ws ch) ch = None"
  by (auto simp: members_def wsConnections_on_close set_delete_def filter_empty_conv
      split: option.splits)

lemma on_close_other_channel:
  "ch' \<noteq> ch \<Longrightarrow> wsConnections (on_close st ws ch) ch' = wsConnections st ch'"
  by (simp add: wsConnections_on_close split: option.splits)

subsection \<open>Liveness\<close>

lemma step_isAlive:
  assumes "c < nextId st" and "isAlive (sockets (step st ev) c) \<noteq> isAlive (sockets st c)"
  shows "ev = Sweep \<or> ev = PongFrame c \<or> ev = Message c (WellFormed (Obj (Some ''PING'')))"
proof (cases ev)
  case (Connection throws url)
  with assms show ?thesis by (simp add: step_Connection accept_socket_other)
next
  case (Message ws m)
  with assms show ?thesis
    by (auto simp: step_def on_message_isAlive split: option.splits if_splits)
next
  case (PongFrame ws)
  with assms show ?thesis by (auto simp: step_def on_pong_def split: option.splits if_splits)
next
  case (Close ws)
  with assms show ?thesis
    by (auto simp: step_def Let_def on_close_frame split: option.splits if_splits)
next
  case Sweep
  then show ?thesis by simp
next
  case (Broadcast ch d)
  show ?thesis
  proof (cases "broadcastToChannel st ch d")
    case (Inl e)
    with Broadcast assms show ?thesis by (simp add: step_def)
  next
    case (Inr st')
    then have "isAlive (sockets st' c) = isAlive (sockets st c)"
      by (auto simp: broadcastToChannel_def split: option.splits dest: forEach_broadcast_static)
    with Broadcast Inr assms show ?thesis by (simp add: step_def)
  qed
qed

lemma step_keeps_client:
  "c \<in> set (clients st) \<Longrightarrow> ev \<noteq> Close c \<Longrightarrow> c \<in> set (clients (step st ev))"
proof (cases ev)
  case (Connection throws url)
  assume "c \<in> set (clients st)"
  with Connection show ?thesis by (simp add: step_Connection accept_clients)
next
  case (Close ws)
  assume "c \<in> set (clients st)" "ev \<noteq> Close c"
  with Close show ?thesis by (simp add: clients_step_Close set_delete_def)
next
  case (Message ws m)
  assume "c \<in> set (clients st)"
  with Message step_frame_other [of ev st] show ?thesis by simp
next
  case (PongFrame ws)
  assume "c \<in> set (clients st)"
  with PongFrame step_frame_other [of ev st] show ?thesis by simp
next
  case Sweep
  assume "c \<in> set (clients st)"
  with Sweep step_frame_other [of ev st] show ?thesis by simp
next
  case (Broadcast ch d)
  assume "c \<in> set (clients st)"
  with Broadcast step_frame_other [of ev st] show ?thesis by simp
qed

lemma run_Cons: "run st (ev # evs) = run (step st ev) evs"
  by (simp add: run_def)

lemma run_reachable: "reachable st \<Longrightarrow> reachable (run st evs)"
  by (induction evs arbitrary: st) (simp_all add: run_def reachable_step)

lemma run_quiet:
  assumes "\<forall>ev\<in>set evs. ev \<noteq> PongFrame c \<and> ev \<noteq> Message c (WellFormed (Obj (Some ''PING''))) \<and>
                        ev \<noteq> Close c \<and> ev \<noteq> Sweep"
    and "c < nextId st" and "c \<in> set (clients st)"
  shows "isAlive (sockets (run st evs) c) = isAlive (sockets st c) \<and>
         c \<in> set (clients (run st evs))"
  using assms
proof (induction evs arbitrary: st)
  case Nil
  then show ?case by (simp add: run_def)
next
  case (Cons ev evs)
  from Cons.prems(1) have q: "ev \<noteq> PongFrame c" "ev \<noteq> Message c (WellFormed (Obj (Some ''PING'')))"
    "ev \<noteq> Close c" "ev \<noteq> Sweep"
    and rest: "\<forall>ev\<in>set evs. ev \<noteq> PongFrame c \<and>
                 ev \<noteq> Message c (WellFormed (Obj (Some ''PING''))) \<and> ev \<noteq> Close c \<and> ev \<noteq> Sweep"
    by simp_all
  have a: "isAlive (sockets (step st ev) c) = isAlive (sockets st c)"
    using step_isAlive [OF Cons.prems(2), of ev] q by blast
  have b: "c < nextId (step st ev)" using Cons.prems(2) nextId_step [of st ev] by simp
  have c: "c \<in> set (clients (step st ev))" using Cons.prems(3) q(3) by (rule step_keeps_client)
  from Cons.IH [OF rest b c] a show ?case by (simp add: run_Cons)
qed

lemma sweep_alive:
  assumes "distinct (clients st)" and "c \<in> set (clients st)"
    and "isAlive (sockets st c) \<noteq> Some False"
  shows "sockets (step st Sweep) c = (sockets st c)\<lparr>isAlive := Some False, pings := Suc (pings (sockets st c))\<rparr>"
  using assms by (simp add: step_def pingInterval_socket ws_ping_def)

lemma sweep_dead:
  assumes "distinct (clients st)" and "c \<in> set (clients st)"
    and "isAlive (sockets st c) = Some False"
  shows "sockets (step st Sweep) c = (sockets st c)\<lparr>readyState := CLOSING, terminated := True\<rparr>"
  using assms by (simp add: step_def pingInterval_socket ws_terminate_def)

lemma sweep_quiet_sweep:
  assumes r: "reachable st" and c: "c \<in> set (clients st)"
    and a: "isAlive (sockets st c) \<noteq> Some False"
    and q: "\<forall>ev\<in>set evs. ev \<noteq> PongFrame c \<and> ev \<noteq> Message c (WellFormed (Obj (Some ''PING''))) \<and>
                          ev \<noteq> Close c \<and> ev \<noteq> Sweep"
  shows "isAlive (sockets (run (step st Sweep) evs) c) = Some False \<and>
         c \<in> set (clients (run (step st Sweep) evs)) \<and>
         terminated (sockets (step (run (step st Sweep) evs) Sweep) c) \<and>
         readyState (sockets (step (run (step st Sweep) evs) Sweep) c) = CLOSING"
proof -
  let ?st1 = "step st Sweep"
  let ?st2 = "run ?st1 evs"
  from reachable_clients [OF r] c have d: "distinct (clients st)" and b: "c < nextId st" by auto
  have a1: "isAlive (sockets ?st1 c) = Some False" using sweep_alive [OF d c a] by simp
  have c1: "c \<in> set (clients ?st1)" using c step_frame_other [of Sweep st] by simp
  have b1: "c < nextId ?st1" using b nextId_step [of st Sweep] by simp
  from run_quiet [OF q b1 c1] a1
  have a2: "isAlive (sockets ?st2 c) = Some False" and c2: "c \<in> set (clients ?st2)" by simp_all
  have r2: "reachable ?st2" using r by (intro run_reachable reachable_step)
  from reachable_clients [OF r2] have d2: "distinct (clients ?st2)" by simp
  from sweep_dead [OF d2 c2 a2] a2 c2 show ?thesis by simp
qed

lemma close_unregisters:
  assumes r: "reachable st" and l: "listening (sockets st c) = Some chn"
  shows "(\<forall>ch. c \<notin> members (step st (Close c)) ch) \<and> c \<notin> set (clients (step st (Close c))) \<and>
         (members st chn \<subseteq> {c} \<longrightarrow> wsConnections (step st (Close c)) chn = None)"
proof -
  let ?st1 = "(update_socket st c ((sockets st c)\<lparr>readyState := CLOSED\<rparr>))
                \<lparr>clients := set_delete c (clients st)\<rparr>"
  have s: "step st (Close c) = on_close ?st1 c chn" using l by (simp add: step_def Let_def)
  have m1: "members ?st1 = members st" by (rule members_eq) simp
  from reachable_listening [OF r l] have only: "\<forall>ch. c \<in> members st ch \<longrightarrow> ch = chn" by simp
  have "\<forall>ch. c \<notin> members (step st (Close c)) ch"
    using only by (auto simp: s members_on_close m1)
  moreover have "c \<notin> set (clients (step st (Close c)))"
    by (simp add: clients_step_Close set_delete_def)
  moreover have "members st chn \<subseteq> {c} \<longrightarrow> wsConnections (step st (Close c)) chn = None"
    using on_close_last [of ?st1 chn c] by (simp add: s m1)
  ultimately show ?thesis by simp
qed

lemma run_static:
  "c < nextId st \<Longrightarrow> listening (sockets (run st evs) c) = listening (sockets st c)"
proof (induction evs arbitrary: st)
  case Nil
  show ?case by (simp add: run_def)
next
  case (Cons ev evs)
  have "c < nextId (step st ev)" using Cons.prems nextId_step [of st ev] by simp
  from Cons.IH [OF this] step_static [of c st ev] Cons.prems show ?case
    by (simp add: run_Cons)
qed

lemma foldl_sweep_not_alive:
  "isAlive (sockets (foldl sweep_client st xs) c) = Some True \<Longrightarrow>
   isAlive (sockets st c) = Some True"
proof (induction xs arbitrary: st)
  case Nil
  then show ?case by simp
next
  case (Cons x xs)
  from Cons.IH [of "sweep_client st x"] Cons.prems
  have "isAlive (sockets (sweep_client st x) c) = Some True" by simp
  then show ?case
    by (auto simp: sweep_client_socket ws_terminate_def ws_ping_def split: if_splits)
qed

lemma step_sets_alive:
  assumes "c < nextId st" and "isAlive (sockets (step st ev) c) = Some True"
    and "isAlive (sockets st c) \<noteq> Some True"
  shows "ev = PongFrame c \<or> ev = Message c (WellFormed (Obj (Some ''PING'')))"
proof -
  from assms have "isAlive (sockets (step st ev) c) \<noteq> isAlive (sockets st c)" by simp
  from step_isAlive [OF assms(1) this]
  have "ev = Sweep \<or> ev = PongFrame c \<or> ev = Message c (WellFormed (Obj (Some ''PING'')))" .
  moreover have "ev \<noteq> Sweep"
  proof
    assume "ev = Sweep"
    with assms(2) have "isAlive (sockets (foldl sweep_client st (clients st)) c) = Some True"
      by (simp add: step_def pingInterval_def)
    from foldl_sweep_not_alive [OF this] assms(3) show False by simp
  qed
  ultimately show ?thesis by blast
qed

lemma on_message_AUTH_sockets:
  "sockets (on_message st ws (WellFormed (Obj (Some ''AUTH'')))) =
     (sockets st)
       (ws := (sockets st ws)
          \<lparr>isAuthenticated := True,
           sent := (if sendThrows (sockets st ws) then sent (sockets st ws)
                    else sent (sockets st ws) @ [AuthSuccess])\<rparr>)"
  by (simp add: on_message_def message_try_def JSON_parse_def type_of_def ws_send_def Let_def)

lemma on_message_AUTH_console:
  "console_error (on_message st ws (WellFormed (Obj (Some ''AUTH'')))) =
     (if sendThrows (sockets st ws)
      then console_error st @ [''Error handling WebSocket message:''] else console_error st)"
  by (simp add: on_message_def message_try_def JSON_parse_def type_of_def ws_send_def Let_def)

lemma example_registered:
  "reachable (accept init_server False ''/TENDER_REQUESTS'') \<and>
   clients (accept init_server False ''/TENDER_REQUESTS'') = [0] \<and>
   sockets (accept init_server False ''/TENDER_REQUESTS'') 0 =
     (new_socket False)\<lparr>sent := [Connected ''TENDER_REQUESTS''],
                         listening := Some ''TENDER_REQUESTS'', isAlive := Some True\<rparr> \<and>
   members (accept init_server False ''/TENDER_REQUESTS'') ''TENDER_REQUESTS'' = {0}"
proof -
  have p: "parse_channel ''/TENDER_REQUESTS'' = ''TENDER_REQUESTS''"
    by (simp add: parse_channel_def urlParts_def)
  have v: "''TENDER_REQUESTS'' \<in> set validChannels" by (simp add: validChannels_def)
  have n0: "nextId init_server = 0" "clients init_server = []"
    "members init_server ''TENDER_REQUESTS'' = {}"
    by (simp_all add: init_server_def members_def)
  have "reachable (accept init_server False ''/TENDER_REQUESTS'')"
    using reachable_step [OF reachable_init_server, of "Connection False ''/TENDER_REQUESTS''"]
    by (simp add: step_Connection)
  moreover have "sockets (accept init_server False ''/TENDER_REQUESTS'') 0 =
     (new_socket False)\<lparr>sent := [Connected ''TENDER_REQUESTS''],
                         listening := Some ''TENDER_REQUESTS'', isAlive := Some True\<rparr>"
    using accept_socket_new [of init_server False "''/TENDER_REQUESTS''"] by (simp add: p v n0)
  ultimately show ?thesis by (simp add: accept_clients members_accept p v n0)
qed

section \<open>Claims about the registry and the heartbeat\<close>

text \<open>
  C8. In every reachable state a channel has an entry in \<^verbatim>\<open>wsConnections\<close> if and
  only if its set has a member. Registration under a valid channel leaves an entry
  holding the new socket; the close handler takes the socket out of its channel's set,
  leaves the other channels alone, deletes the entry when the set becomes empty and
  keeps it otherwise; and running the close handler a second time for the same socket
  changes nothing.
\<close>

theorem registry_entry_iff_member:
  "(reachable st \<longrightarrow> (wsConnections st ch \<noteq> None) = (members st ch \<noteq> {})) \<and>
   (parse_channel url \<in> set validChannels \<longrightarrow>
      wsConnections (accept st throws url) (parse_channel url) \<noteq> None \<and>
      nextId st \<in> members (accept st throws url) (parse_channel url)) \<and>
   members (on_close st ws ch) ch = members st ch - {ws} \<and>
   (\<forall>ch'. ch' \<noteq> ch \<longrightarrow> wsConnections (on_close st ws ch) ch' = wsConnections st ch') \<and>
   (members st ch \<subseteq> {ws} \<longrightarrow> wsConnections (on_close st ws ch) ch = None) \<and>
   (reachable st \<longrightarrow> \<not> members st ch \<subseteq> {ws} \<longrightarrow> wsConnections (on_close st ws ch) ch \<noteq> None) \<and>
   on_close (on_close st ws ch) ws ch = on_close st ws ch"
proof (intro conjI impI allI)
  assume r: "reachable st"
  show "(wsConnections st ch \<noteq> None) = (members st ch \<noteq> {})"
  proof (cases "wsConnections st ch")
    case None
    then show ?thesis by (simp add: members_def)
  next
    case (Some xs)
    with reachable_entries [OF r Some] show ?thesis by (simp add: members_def)
  qed
next
  assume "parse_channel url \<in> set validChannels"
  then show "wsConnections (accept st throws url) (parse_channel url) \<noteq> None"
    by (simp add: wsConnections_accept)
next
  assume "parse_channel url \<in> set validChannels"
  then show "nextId st \<in> members (accept st throws url) (parse_channel url)"
    by (simp add: members_accept)
next
  show "members (on_close st ws ch) ch = members st ch - {ws}" by (simp add: members_on_close)
next
  fix ch' assume "ch' \<noteq> ch"
  then show "wsConnections (on_close st ws ch) ch' = wsConnections st ch'"
    by (rule on_close_other_channel)
next
  assume "members st ch \<subseteq> {ws}"
  then show "wsConnections (on_close st ws ch) ch = None" by (rule on_close_last)
next
  assume "reachable st" and "\<not> members st ch \<subseteq> {ws}"
  then show "wsConnections (on_close st ws ch) ch \<noteq> None"
    by (auto simp: members_def wsConnections_on_close set_delete_def filter_empty_conv
        split: option.splits)
next
  show "on_close (on_close st ws ch) ws ch = on_close st ws ch" by (rule on_close_idem)
qed

theorem registry_entry_iff_member_witness:
  "wsConnections (accept init_server False ''/TENDER_REQUESTS'') ''TENDER_REQUESTS'' \<noteq> None \<and>
   members (accept init_server False ''/TENDER_REQUESTS'') ''TENDER_REQUESTS'' = {0} \<and>
   wsConnections (on_close (accept init_server False ''/TENDER_REQUESTS'') 0 ''TENDER_REQUESTS'')
     ''TENDER_REQUESTS'' = None \<and>
   wsConnections (on_close (accept (accept init_server False ''/TENDER_REQUESTS'') False
                              ''/TENDER_REQUESTS'') 0 ''TENDER_REQUESTS'')
     ''TENDER_REQUESTS'' \<noteq> None \<and>
   on_close (on_close (accept init_server False ''/TENDER_REQUESTS'') 0 ''TENDER_REQUESTS'')
     0 ''TENDER_REQUESTS'' =
   on_close (accept init_server False ''/TENDER_REQUESTS'') 0 ''TENDER_REQUESTS''"
proof -
  let ?st = "accept init_server False ''/TENDER_REQUESTS''"
  let ?st2 = "accept ?st False ''/TENDER_REQUESTS''"
  have p: "parse_channel ''/TENDER_REQUESTS'' = ''TENDER_REQUESTS''"
    by (simp add: parse_channel_def urlParts_def)
  have v: "''TENDER_REQUESTS'' \<in> set validChannels"
    by (simp add: validChannels_def)
  have r0: "reachable ?st"
    using reachable_step [OF reachable_init_server, of "Connection False ''/TENDER_REQUESTS''"]
    by (simp add: step_Connection)
  have r2: "reachable ?st2"
    using reachable_step [OF r0, of "Connection False ''/TENDER_REQUESTS''"]
    by (simp add: step_Connection)
  have m0: "members init_server ''TENDER_REQUESTS'' = {}"
    by (simp add: members_def init_server_def)
  have n0: "nextId init_server = 0" by (simp add: init_server_def)
  have m: "members ?st ''TENDER_REQUESTS'' = {0}"
    by (simp add: members_accept p v m0 n0)
  have m2: "members ?st2 ''TENDER_REQUESTS'' = {0, 1}"
    by (auto simp: members_accept [of ?st] p v m nextId_accept n0)
  note t0 = registry_entry_iff_member
    [of ?st "''TENDER_REQUESTS''" "''/TENDER_REQUESTS''" throws 0 for throws]
  note t2 = registry_entry_iff_member
    [of ?st2 "''TENDER_REQUESTS''" "''/TENDER_REQUESTS''" throws 0 for throws]
  have a: "wsConnections ?st ''TENDER_REQUESTS'' \<noteq> None" using t0 r0 m by simp
  have b: "wsConnections (on_close ?st 0 ''TENDER_REQUESTS'') ''TENDER_REQUESTS'' = None"
    using t0 m by simp
  have c: "wsConnections (on_close ?st2 0 ''TENDER_REQUESTS'') ''TENDER_REQUESTS'' \<noteq> None"
    using t2 r2 m2 by simp
  have d: "on_close (on_close ?st 0 ''TENDER_REQUESTS'') 0 ''TENDER_REQUESTS'' =
           on_close ?st 0 ''TENDER_REQUESTS''"
    using t0 by blast
  from a m b c d show ?thesis by blast
qed


text \<open>
  X6. Take a reachable state and a socket of \<^verbatim>\<open>wss.clients\<close> whose liveness flag is
  not false. A sweep sets the flag to false and sends one ping. If no pong frame and no
  PING envelope of that socket arrives before the next sweep (whatever else happens:
  other messages of the socket, broadcasts, other connections), the flag is still false
  at that sweep, which terminates the socket. When the handlers of the socket are
  attached, it is then still a member of its channel, and its close event removes it
  from every member set and deletes the channel entry when it was the last member.
  When instead a pong frame or a PING envelope of the socket arrives after the first
  sweep, the flag is true again, and if nothing of the kind follows, the next sweep
  does not terminate the socket but sets the flag to false and pings once more. The
  flag of a socket goes from false to true in one step of the server only by a pong
  frame or a PING envelope of that socket.
\<close>

theorem heartbeat_terminates_silent:
  assumes "reachable st" and "c \<in> set (clients st)"
    and "isAlive (sockets st c) \<noteq> Some False"
    and "\<forall>ev\<in>set evs. ev \<noteq> PongFrame c \<and> ev \<noteq> Message c (WellFormed (Obj (Some ''PING''))) \<and>
                        ev \<noteq> Close c \<and> ev \<noteq> Sweep"
    and "\<forall>ev\<in>set evs'. ev \<noteq> PongFrame c \<and> ev \<noteq> Message c (WellFormed (Obj (Some ''PING''))) \<and>
                         ev \<noteq> Close c \<and> ev \<noteq> Sweep"
  shows "sockets (step st Sweep) c =
           (sockets st c)\<lparr>isAlive := Some False, pings := Suc (pings (sockets st c))\<rparr> \<and>
         isAlive (sockets (run (step st Sweep) evs) c) = Some False \<and>
         terminated (sockets (step (run (step st Sweep) evs) Sweep) c) \<and>
         readyState (sockets (step (run (step st Sweep) evs) Sweep) c) = CLOSING \<and>
         (\<forall>chn. listening (sockets st c) = Some chn \<longrightarrow>
            c \<in> members (step (run (step st Sweep) evs) Sweep) chn \<and>
            (\<forall>ch. c \<notin> members (step (step (run (step st Sweep) evs) Sweep) (Close c)) ch) \<and>
            (members (step (run (step st Sweep) evs) Sweep) chn \<subseteq> {c} \<longrightarrow>
               wsConnections (step (step (run (step st Sweep) evs) Sweep) (Close c)) chn = None)) \<and>
         (\<forall>ev. listening (sockets st c) \<noteq> None \<longrightarrow>
            ev = PongFrame c \<or> ev = Message c (WellFormed (Obj (Some ''PING''))) \<longrightarrow>
            isAlive (sockets (step (run (step st Sweep) evs) ev) c) = Some True \<and>
            sockets (step (run (step (run (step st Sweep) evs) ev) evs') Sweep) c =
              (sockets (run (step (run (step st Sweep) evs) ev) evs') c)
                \<lparr>isAlive := Some False,
                 pings := Suc (pings (sockets (run (step (run (step st Sweep) evs) ev) evs') c))\<rparr>) \<and>
         (\<forall>st' ev. c < nextId st' \<longrightarrow> isAlive (sockets st' c) = Some False \<longrightarrow>
            isAlive (sockets (step st' ev) c) = Some True \<longrightarrow>
            ev = PongFrame c \<or> ev = Message c (WellFormed (Obj (Some ''PING''))))"
proof -
  let ?st1 = "step st Sweep"
  let ?st2 = "run ?st1 evs"
  let ?st3 = "step ?st2 Sweep"
  from reachable_clients [OF assms(1)] assms(2)
  have d: "distinct (clients st)" and b: "c < nextId st" by auto
  have first: "sockets ?st1 c =
      (sockets st c)\<lparr>isAlive := Some False, pings := Suc (pings (sockets st c))\<rparr>"
    by (rule sweep_alive [OF d assms(2) assms(3)])
  note mid = sweep_quiet_sweep [OF assms(1) assms(2) assms(3) assms(4)]
  have r2: "reachable ?st2"
    using assms(1) by (intro reachable_step run_reachable)
  have r3: "reachable ?st3" using r2 by (rule reachable_step)
  have b1: "c < nextId ?st1" using b nextId_step [of st Sweep] by simp
  have c2: "c \<in> set (clients ?st2)" using mid by simp
  have b2: "c < nextId ?st2" using reachable_clients [OF r2] c2 by blast
  have l2: "listening (sockets ?st2 c) = listening (sockets st c)"
    using run_static [OF b1, of evs] step_static [of c st Sweep] by simp
  have l3: "listening (sockets ?st3 c) = listening (sockets st c)"
    using step_static [of c ?st2 Sweep] l2 by simp
  have c3: "c \<in> set (clients ?st3)"
    using c2 step_frame_other [of Sweep ?st2] by simp
  have removal: "\<forall>chn. listening (sockets st c) = Some chn \<longrightarrow>
            c \<in> members ?st3 chn \<and>
            (\<forall>ch. c \<notin> members (step ?st3 (Close c)) ch) \<and>
            (members ?st3 chn \<subseteq> {c} \<longrightarrow> wsConnections (step ?st3 (Close c)) chn = None)"
  proof (intro allI impI)
    fix chn assume "listening (sockets st c) = Some chn"
    with l3 have l: "listening (sockets ?st3 c) = Some chn" by simp
    from reachable_listening [OF r3 l] c3 close_unregisters [OF r3 l]
    show "c \<in> members ?st3 chn \<and>
            (\<forall>ch. c \<notin> members (step ?st3 (Close c)) ch) \<and>
            (members ?st3 chn \<subseteq> {c} \<longrightarrow> wsConnections (step ?st3 (Close c)) chn = None)"
      by simp
  qed
  have revive: "\<forall>ev. listening (sockets st c) \<noteq> None \<longrightarrow>
            ev = PongFrame c \<or> ev = Message c (WellFormed (Obj (Some ''PING''))) \<longrightarrow>
            isAlive (sockets (step ?st2 ev) c) = Some True \<and>
            sockets (step (run (step ?st2 ev) evs') Sweep) c =
              (sockets (run (step ?st2 ev) evs') c)
                \<lparr>isAlive := Some False,
                 pings := Suc (pings (sockets (run (step ?st2 ev) evs') c))\<rparr>"
  proof (intro allI impI)
    fix ev
    assume "listening (sockets st c) \<noteq> None"
      and ev: "ev = PongFrame c \<or> ev = Message c (WellFormed (Obj (Some ''PING'')))"
    with l2 obtain chn where l: "listening (sockets ?st2 c) = Some chn" by auto
    from reachable_listening [OF r2 l] have ok: "\<not> sendThrows (sockets ?st2 c)" by simp
    have a: "isAlive (sockets (step ?st2 ev) c) = Some True"
      using ev l ok by (auto simp: step_def on_pong_def on_message_isAlive)
    have nc: "ev \<noteq> Close c" using ev by auto
    have c4: "c \<in> set (clients (step ?st2 ev))" using c2 nc by (rule step_keeps_client)
    have b4: "c < nextId (step ?st2 ev)" using b2 nextId_step [of ?st2 ev] by simp
    from run_quiet [OF assms(5) b4 c4] a
    have a5: "isAlive (sockets (run (step ?st2 ev) evs') c) \<noteq> Some False"
      and c5: "c \<in> set (clients (run (step ?st2 ev) evs'))" by simp_all
    have r5: "reachable (run (step ?st2 ev) evs')"
      by (intro run_reachable reachable_step r2)
    from reachable_clients [OF r5] have d5: "distinct (clients (run (step ?st2 ev) evs'))" by simp
    from a sweep_alive [OF d5 c5 a5]
    show "isAlive (sockets (step ?st2 ev) c) = Some True \<and>
            sockets (step (run (step ?st2 ev) evs') Sweep) c =
              (sockets (run (step ?st2 ev) evs') c)
                \<lparr>isAlive := Some False,
                 pings := Suc (pings (sockets (run (step ?st2 ev) evs') c))\<rparr>"
      by simp
  qed
  have only: "\<forall>st' ev. c < nextId st' \<longrightarrow> isAlive (sockets st' c) = Some False \<longrightarrow>
            isAlive (sockets (step st' ev) c) = Some True \<longrightarrow>
            ev = PongFrame c \<or> ev = Message c (WellFormed (Obj (Some ''PING'')))"
    using step_sets_alive by (metis option.inject)
  show ?thesis
    by (intro conjI first mid [THEN conjunct1] mid [THEN conjunct2, THEN conjunct2, THEN conjunct1]
        mid [THEN conjunct2, THEN conjunct2, THEN conjunct2] removal revive only)
qed

theorem heartbeat_terminates_silent_witness:
  "isAlive (sockets (step (accept init_server False ''/TENDER_REQUESTS'') Sweep) 0) = Some False \<and>
   pings (sockets (step (accept init_server False ''/TENDER_REQUESTS'') Sweep) 0) = 1 \<and>
   terminated
     (sockets
        (step (run (step (accept init_server False ''/TENDER_REQUESTS'') Sweep)
                 [Message 0 (WellFormed (Obj (Some ''AUTH''))),
                  Broadcast ''TENDER_REQUESTS'' (Json ''{}'')]) Sweep) 0) \<and>
   0 \<notin> members
         (step (step (run (step (accept init_server False ''/TENDER_REQUESTS'') Sweep)
                        [Message 0 (WellFormed (Obj (Some ''AUTH''))),
                         Broadcast ''TENDER_REQUESTS'' (Json ''{}'')]) Sweep) (Close 0))
         ''TENDER_REQUESTS'' \<and>
   wsConnections
     (step (step (run (step (accept init_server False ''/TENDER_REQUESTS'') Sweep)
                    [Message 0 (WellFormed (Obj (Some ''AUTH''))),
                     Broadcast ''TENDER_REQUESTS'' (Json ''{}'')]) Sweep) (Close 0))
     ''TENDER_REQUESTS'' = None \<and>
   isAlive
     (sockets
        (step (run (step (accept init_server False ''/TENDER_REQUESTS'') Sweep)
                 [Message 0 (WellFormed (Obj (Some ''AUTH''))),
                  Broadcast ''TENDER_REQUESTS'' (Json ''{}'')]) (PongFrame 0)) 0) = Some True \<and>
   isAlive
     (sockets
        (step (run (step (run (step (accept init_server False ''/TENDER_REQUESTS'') Sweep)
                 [Message 0 (WellFormed (Obj (Some ''AUTH''))),
                  Broadcast ''TENDER_REQUESTS'' (Json ''{}'')]) (PongFrame 0))
                 [Message 0 (WellFormed (Obj (Some ''AUTH'')))]) Sweep) 0) = Some False"
proof -
  let ?st = "accept init_server False ''/TENDER_REQUESTS''"
  let ?evs = "[Message 0 (WellFormed (Obj (Some ''AUTH''))), Broadcast ''TENDER_REQUESTS'' (Json ''{}'')]"
  let ?evs' = "[Message 0 (WellFormed (Obj (Some ''AUTH'')))]"
  let ?st3 = "step (run (step ?st Sweep) ?evs) Sweep"
  note ex = example_registered
  have h1: "reachable ?st" and h2: "0 \<in> set (clients ?st)"
    and h3: "listening (sockets ?st 0) = Some ''TENDER_REQUESTS''"
    and h4: "isAlive (sockets ?st 0) \<noteq> Some False"
    using ex by (simp_all add: new_socket_def)
  have h5: "\<forall>ev\<in>set ?evs. ev \<noteq> PongFrame 0 \<and> ev \<noteq> Message 0 (WellFormed (Obj (Some ''PING''))) \<and>
              ev \<noteq> Close 0 \<and> ev \<noteq> Sweep"
    by simp
  have h6: "\<forall>ev\<in>set ?evs'. ev \<noteq> PongFrame 0 \<and> ev \<noteq> Message 0 (WellFormed (Obj (Some ''PING''))) \<and>
              ev \<noteq> Close 0 \<and> ev \<noteq> Sweep"
    by simp
  have w: "wsConnections ?st3 = wsConnections ?st"
    by (simp add: run_def step_Sweep_frame step_Message_frame step_Broadcast_frame)
  have m3: "members ?st3 ''TENDER_REQUESTS'' \<subseteq> {0}"
    using members_eq [OF w] ex by simp
  note t = heartbeat_terminates_silent [OF h1 h2 h4 h5 h6]
  have a: "isAlive (sockets (step ?st Sweep) 0) = Some False \<and>
           pings (sockets (step ?st Sweep) 0) = 1 \<and> terminated (sockets ?st3 0)"
    using t ex by (simp add: new_socket_def)
  have b: "0 \<notin> members (step ?st3 (Close 0)) ''TENDER_REQUESTS'' \<and>
           wsConnections (step ?st3 (Close 0)) ''TENDER_REQUESTS'' = None"
    using t h3 m3 by simp
  have c: "isAlive (sockets (step (run (step ?st Sweep) ?evs) (PongFrame 0)) 0) = Some True \<and>
           isAlive (sockets (step (run (step (run (step ?st Sweep) ?evs) (PongFrame 0)) ?evs') Sweep) 0) =
             Some False"
    using t h3 by simp
  from a b c show ?thesis by simp
qed

text \<open>
  C10. Processing an AUTH envelope changes, in the whole server state, only the socket
  it arrived on: its \<^verbatim>\<open>isAuthenticated\<close> becomes true and the AUTH_SUCCESS reply is
  handed to its \<^verbatim>\<open>send\<close> (in a reachable state, where the handlers are attached
  only to sockets whose \<^verbatim>\<open>send\<close> works, the reply is always sent and nothing is
  logged); \<^verbatim>\<open>isAlive\<close>, the registry and every other field and socket stay as they
  were. No inbound message other than a PING envelope changes any liveness flag, and a
  step of the server makes a flag true only for a pong frame or a PING envelope of that
  socket. So a socket that only authenticates between two sweeps is terminated by the
  second.
\<close>

theorem auth_leaves_liveness:
  "sockets (on_message st ws (WellFormed (Obj (Some ''AUTH'')))) =
     (sockets st)
       (ws := (sockets st ws)
          \<lparr>isAuthenticated := True,
           sent := (if sendThrows (sockets st ws) then sent (sockets st ws)
                    else sent (sockets st ws) @ [AuthSuccess])\<rparr>) \<and>
   wsConnections (on_message st ws (WellFormed (Obj (Some ''AUTH'')))) = wsConnections st \<and>
   clients (on_message st ws (WellFormed (Obj (Some ''AUTH'')))) = clients st \<and>
   (reachable st \<longrightarrow> listening (sockets st ws) \<noteq> None \<longrightarrow>
      sockets (step st (Message ws (WellFormed (Obj (Some ''AUTH''))))) =
        (sockets st)
          (ws := (sockets st ws)
             \<lparr>isAuthenticated := True, sent := sent (sockets st ws) @ [AuthSuccess]\<rparr>) \<and>
      console_error (step st (Message ws (WellFormed (Obj (Some ''AUTH''))))) = console_error st) \<and>
   (\<forall>m c. m \<noteq> WellFormed (Obj (Some ''PING'')) \<longrightarrow>
      isAlive (sockets (on_message st ws m) c) = isAlive (sockets st c)) \<and>
   (\<forall>ev c. c < nextId st \<longrightarrow> isAlive (sockets st c) \<noteq> Some True \<longrightarrow>
      isAlive (sockets (step st ev) c) = Some True \<longrightarrow>
      ev = PongFrame c \<or> ev = Message c (WellFormed (Obj (Some ''PING'')))) \<and>
   (reachable st \<longrightarrow> ws \<in> set (clients st) \<longrightarrow> isAlive (sockets st ws) \<noteq> Some False \<longrightarrow>
      (\<forall>evs. set evs \<subseteq> {Message ws (WellFormed (Obj (Some ''AUTH'')))} \<longrightarrow>
         terminated (sockets (step (run (step st Sweep) evs) Sweep) ws)))"
proof (intro conjI allI impI)
  show "sockets (on_message st ws (WellFormed (Obj (Some ''AUTH'')))) =
     (sockets st)
       (ws := (sockets st ws)
          \<lparr>isAuthenticated := True,
           sent := (if sendThrows (sockets st ws) then sent (sockets st ws)
                    else sent (sockets st ws) @ [AuthSuccess])\<rparr>)"
    by (rule on_message_AUTH_sockets)
next
  show "wsConnections (on_message st ws (WellFormed (Obj (Some ''AUTH'')))) = wsConnections st"
    by (rule on_message_frame)
next
  show "clients (on_message st ws (WellFormed (Obj (Some ''AUTH'')))) = clients st"
    by (rule on_message_frame)
next
  assume r: "reachable st" and l: "listening (sockets st ws) \<noteq> None"
  then obtain chn where "listening (sockets st ws) = Some chn" by blast
  from reachable_listening [OF r this] have "\<not> sendThrows (sockets st ws)" by simp
  with l show "sockets (step st (Message ws (WellFormed (Obj (Some ''AUTH''))))) =
        (sockets st)
          (ws := (sockets st ws)
             \<lparr>isAuthenticated := True, sent := sent (sockets st ws) @ [AuthSuccess]\<rparr>)"
    by (auto simp: step_def on_message_AUTH_sockets)
next
  assume r: "reachable st" and l: "listening (sockets st ws) \<noteq> None"
  then obtain chn where "listening (sockets st ws) = Some chn" by blast
  from reachable_listening [OF r this] have "\<not> sendThrows (sockets st ws)" by simp
  with l show "console_error (step st (Message ws (WellFormed (Obj (Some ''AUTH''))))) = console_error st"
    by (auto simp: step_def on_message_AUTH_console)
next
  fix m c assume "m \<noteq> WellFormed (Obj (Some ''PING''))"
  then show "isAlive (sockets (on_message st ws m) c) = isAlive (sockets st c)"
    by (simp add: on_message_isAlive)
next
  fix ev c
  assume "c < nextId st" "isAlive (sockets st c) \<noteq> Some True"
    "isAlive (sockets (step st ev) c) = Some True"
  then show "ev = PongFrame c \<or> ev = Message c (WellFormed (Obj (Some ''PING'')))"
    using step_sets_alive by blast
next
  fix evs
  assume r: "reachable st" and c: "ws \<in> set (clients st)"
    and a: "isAlive (sockets st ws) \<noteq> Some False"
    and e: "set evs \<subseteq> {Message ws (WellFormed (Obj (Some ''AUTH'')))}"
  from e have q: "\<forall>ev\<in>set evs. ev \<noteq> PongFrame ws \<and>
      ev \<noteq> Message ws (WellFormed (Obj (Some ''PING''))) \<and> ev \<noteq> Close ws \<and> ev \<noteq> Sweep"
    by auto
  from sweep_quiet_sweep [OF r c a q]
  show "terminated (sockets (step (run (step st Sweep) evs) Sweep) ws)" by simp
qed

theorem auth_leaves_liveness_witness:
  "sockets (step (accept init_server False ''/TENDER_REQUESTS'')
              (Message 0 (WellFormed (Obj (Some ''AUTH''))))) 0 =
     (new_socket False)\<lparr>sent := [Connected ''TENDER_REQUESTS'', AuthSuccess],
                         listening := Some ''TENDER_REQUESTS'', isAlive := Some True,
                         isAuthenticated := True\<rparr> \<and>
   isAlive (sockets (on_message (step (accept init_server False ''/TENDER_REQUESTS'') Sweep) 0
                       (WellFormed (Obj (Some ''AUTH'')))) 0) = Some False \<and>
   terminated
     (sockets
        (step (run (step (accept init_server False ''/TENDER_REQUESTS'') Sweep)
                 [Message 0 (WellFormed (Obj (Some ''AUTH''))),
                  Message 0 (WellFormed (Obj (Some ''AUTH'')))]) Sweep) 0)"
proof -
  let ?st = "accept init_server False ''/TENDER_REQUESTS''"
  let ?auth = "WellFormed (Obj (Some ''AUTH''))"
  note ex = example_registered
  have h1: "reachable ?st" and h2: "0 \<in> set (clients ?st)"
    and h3: "listening (sockets ?st 0) \<noteq> None"
    and h4: "isAlive (sockets ?st 0) \<noteq> Some False"
    using ex by (simp_all add: new_socket_def)
  have ne: "?auth \<noteq> WellFormed (Obj (Some ''PING''))" by simp
  have sub: "set [Message 0 ?auth, Message 0 ?auth] \<subseteq> {Message 0 ?auth}" by simp
  have d: "distinct (clients ?st)" using ex by simp
  have sw: "isAlive (sockets (step ?st Sweep) 0) = Some False"
    using sweep_alive [OF d h2 h4] by simp
  note t = auth_leaves_liveness [of ?st 0]
  note t' = auth_leaves_liveness [of "step ?st Sweep" 0]
  have a: "sockets (step ?st (Message 0 ?auth)) 0 =
     (new_socket False)\<lparr>sent := [Connected ''TENDER_REQUESTS'', AuthSuccess],
                         listening := Some ''TENDER_REQUESTS'', isAlive := Some True,
                         isAuthenticated := True\<rparr>"
    using t h1 h3 ex by (simp add: new_socket_def)
  have b: "isAlive (sockets (on_message (step ?st Sweep) 0 ?auth) 0) = Some False"
    using t' ne sw by simp
  have c: "terminated (sockets (step (run (step ?st Sweep) [Message 0 ?auth, Message 0 ?auth]) Sweep) 0)"
    using t h1 h2 h4 sub by blast
  from a b c show ?thesis by simp
qed

section \<open>Client: reconnection, dispatch and teardown\<close>

lemma backoff_cap: "5 \<le> n \<Longrightarrow> backoff n = 30000"
proof -
  assume "5 \<le> n"
  then have "(2::nat) ^ 5 \<le> 2 ^ n" by (intro power_increasing) simp_all
  then have "(30000::nat) \<le> 1000 * 2 ^ n" by simp
  then show ?thesis by (simp add: backoff_def)
qed

lemma backoff_values: "map backoff [0, 1, 2, 3, 4, 5, 6] = [1000, 2000, 4000, 8000, 16000, 30000, 30000]"
  by (simp add: backoff_def)

lemma onclose_schedules:
  assumes "\<not> isUnmounted (hooks cl (owner (websockets cl w)))"
    and "enabled (hooks cl (owner (websockets cl w)))"
    and "reconnectCount (hooks cl (owner (websockets cl w))) < reconnectAttempts (hooks cl (owner (websockets cl w)))"
  shows "hooks (onclose cl w) (owner (websockets cl w)) =
           (hooks cl (owner (websockets cl w)))
             \<lparr>isConnected := False, wsRef := None,
              reconnectTimeout := Some (backoff (reconnectCount (hooks cl (owner (websockets cl w)))))\<rparr>"
  using assms by (simp add: onclose_def Let_def update_hook_def)

lemma onclose_exhausted:
  assumes "\<not> isUnmounted (hooks cl (owner (websockets cl w)))"
    and "reconnectAttempts (hooks cl (owner (websockets cl w))) \<le> reconnectCount (hooks cl (owner (websockets cl w)))"
  shows "hooks (onclose cl w) (owner (websockets cl w)) =
           (hooks cl (owner (websockets cl w)))
             \<lparr>isConnected := False, wsRef := None,
              error := Some ''Maximum reconnection attempts reached''\<rparr>"
  using assms by (simp add: onclose_def Let_def update_hook_def)

lemma onclose_unmounted:
  "isUnmounted (hooks cl (owner (websockets cl w))) \<Longrightarrow> hooks (onclose cl w) = hooks cl"
  by (simp add: onclose_def Let_def)

lemma onopen_resets:
  "reconnectCount (hooks (onopen cl w now) (owner (websockets cl w))) = 0 \<and>
   error (hooks (onopen cl w now) (owner (websockets cl w))) = None \<and>
   isConnected (hooks (onopen cl w now) (owner (websockets cl w)))"
  by (simp add: onopen_def Let_def)

lemma connect_new_socket:
  "nextSocket (connect cl h) \<noteq> nextSocket cl \<Longrightarrow>
   enabled (hooks (connect cl h) h) \<and> owner (websockets (connect cl h) (nextSocket cl)) = h \<and>
   wsRef (hooks (connect cl h) h) = Some (nextSocket cl) \<and>
   map_of (activeConnections (connect cl h)) (channel (hooks cl h)) = Some (nextSocket cl)"
  by (auto simp: connect_def Let_def update_hook_def update_conv split: if_splits option.splits)

lemma reconnect_timer_counts:
  "reconnectTimeout (hooks cl h) = Some d \<Longrightarrow>
   reconnectCount (hooks (reconnect_timer cl h) h) = Suc (reconnectCount (hooks cl h)) \<and>
   reconnectTimeout (hooks (reconnect_timer cl h) h) = None"
  by (auto simp: reconnect_timer_def connect_def Let_def update_hook_def split: option.splits)

lemma onmessage_only_owner:
  "h \<noteq> owner (websockets cl w) \<Longrightarrow> hooks (onmessage cl w e now) h = hooks cl h"
  by (simp add: onmessage_def Let_def update_hook_def JSON_parse_client_def split: event_data.splits)

lemma onmessage_owner:
  "received (hooks (onmessage cl w (GoodJson d) now) (owner (websockets cl w))) =
     (if hasOnMessage (hooks cl (owner (websockets cl w)))
      then received (hooks cl (owner (websockets cl w))) @ [d]
      else received (hooks cl (owner (websockets cl w))))"
  by (simp add: onmessage_def Let_def update_hook_def JSON_parse_client_def)

lemma connect_takes_over:
  "enabled (hooks cl h) \<Longrightarrow> wsRef (hooks cl h) = None \<Longrightarrow>
   map_of (activeConnections cl) (channel (hooks cl h)) = Some w \<Longrightarrow>
   connect cl h = update_hook cl h ((hooks cl h)\<lparr>wsRef := Some w, isConnected := True\<rparr>)"
  by (simp add: connect_def Let_def)

lemma cleanup_keeps_registered:
  "wsRef (hooks cl h) = Some w \<Longrightarrow> w \<in> snd ` set (activeConnections cl) \<Longrightarrow>
   websockets (useEffect_cleanup cl h) = websockets cl \<and>
   activeConnections (useEffect_cleanup cl h) = activeConnections cl"
  by (simp add: useEffect_cleanup_def Let_def update_hook_def)

subsection \<open>The owner of a socket is an enabled hook\<close>

lemma connect_owners:
  assumes "\<forall>w<nextSocket cl. enabled (hooks cl (owner (websockets cl w)))"
  shows "\<forall>w<nextSocket (connect cl h). enabled (hooks (connect cl h) (owner (websockets (connect cl h) w)))"
  using assms
  by (auto simp: connect_def Let_def update_hook_def less_Suc_eq split: option.splits)

lemma update_hook_owners:
  assumes "\<forall>w<nextSocket cl. enabled (hooks cl (owner (websockets cl w)))"
    and "enabled hk = enabled (hooks cl h)"
  shows "\<forall>w<nextSocket (update_hook cl h hk).
           enabled (hooks (update_hook cl h hk) (owner (websockets (update_hook cl h hk) w)))"
  using assms by (auto simp: update_hook_def)

lemma mount_owners:
  assumes "\<forall>w<nextSocket cl. enabled (hooks cl (owner (websockets cl w)))"
  shows "\<forall>w<nextSocket (useEffect_mount cl h).
           enabled (hooks (useEffect_mount cl h) (owner (websockets (useEffect_mount cl h) w)))"
proof -
  let ?cl1 = "update_hook cl h ((hooks cl h)\<lparr>isUnmounted := False\<rparr>)"
  have a: "\<forall>w<nextSocket ?cl1. enabled (hooks ?cl1 (owner (websockets ?cl1 w)))"
    by (rule update_hook_owners [OF assms]) simp
  show ?thesis
    using a connect_owners [OF a, of h] by (simp add: useEffect_mount_def Let_def)
qed

lemma timer_owners:
  assumes "\<forall>w<nextSocket cl. enabled (hooks cl (owner (websockets cl w)))"
  shows "\<forall>w<nextSocket (reconnect_timer cl h).
           enabled (hooks (reconnect_timer cl h) (owner (websockets (reconnect_timer cl h) w)))"
proof (cases "reconnectTimeout (hooks cl h)")
  case None
  with assms show ?thesis by (simp add: reconnect_timer_def)
next
  case (Some d)
  let ?cl1 = "update_hook cl h
               ((hooks cl h)\<lparr>reconnectTimeout := None, reconnectCount := Suc (reconnectCount (hooks cl h))\<rparr>)"
  have a: "\<forall>w<nextSocket ?cl1. enabled (hooks ?cl1 (owner (websockets ?cl1 w)))"
    by (rule update_hook_owners [OF assms]) simp
  from connect_owners [OF a, of h] Some show ?thesis by (simp add: reconnect_timer_def)
qed

lemma cleanup_owners:
  assumes "\<forall>w<nextSocket cl. enabled (hooks cl (owner (websockets cl w)))"
  shows "\<forall>w<nextSocket (useEffect_cleanup cl h).
           enabled (hooks (useEffect_cleanup cl h) (owner (websockets (useEffect_cleanup cl h) w)))"
  using assms
  by (auto simp: useEffect_cleanup_def Let_def update_hook_def split: option.splits)

lemma onopen_owners:
  assumes "\<forall>w<nextSocket cl. enabled (hooks cl (owner (websockets cl w)))"
  shows "\<forall>w'<nextSocket (onopen cl w now).
           enabled (hooks (onopen cl w now) (owner (websockets (onopen cl w now) w')))"
  using assms by (auto simp: onopen_def Let_def split: option.splits)

lemma onmessage_owners:
  assumes "\<forall>w<nextSocket cl. enabled (hooks cl (owner (websockets cl w)))"
  shows "\<forall>w'<nextSocket (onmessage cl w e now).
           enabled (hooks (onmessage cl w e now) (owner (websockets (onmessage cl w e now) w')))"
  using assms
  by (auto simp: onmessage_def Let_def update_hook_def JSON_parse_client_def split: event_data.splits)

lemma onclose_owners:
  assumes "\<forall>w<nextSocket cl. enabled (hooks cl (owner (websockets cl w)))"
  shows "\<forall>w'<nextSocket (onclose cl w).
           enabled (hooks (onclose cl w) (owner (websockets (onclose cl w) w')))"
  using assms by (auto simp: onclose_def Let_def update_hook_def)

lemma onerror_owners:
  assumes "\<forall>w<nextSocket cl. enabled (hooks cl (owner (websockets cl w)))"
  shows "\<forall>w'<nextSocket (onerror cl w).
           enabled (hooks (onerror cl w) (owner (websockets (onerror cl w) w')))"
  using assms by (auto simp: onerror_def Let_def update_hook_def)

lemma client_reachable_owners:
  "client_reachable cl \<Longrightarrow> \<forall>w<nextSocket cl. enabled (hooks cl (owner (websockets cl w)))"
proof (induction rule: client_reachable.induct)
  case (client_reachable_init hs)
  show ?case by (simp add: init_client_def)
next
  case (client_reachable_step cl ev)
  show ?case
  proof (cases ev)
    case (Mount h)
    with mount_owners [OF client_reachable_step.IH] show ?thesis by (simp add: client_step_def)
  next
    case (Unmount h)
    with cleanup_owners [OF client_reachable_step.IH] show ?thesis by (simp add: client_step_def)
  next
    case (Opened w now)
    with onopen_owners [OF client_reachable_step.IH] client_reachable_step.IH
    show ?thesis by (simp add: client_step_def)
  next
    case (Received w e now)
    with onmessage_owners [OF client_reachable_step.IH] client_reachable_step.IH
    show ?thesis by (simp add: client_step_def)
  next
    case (Closed w)
    with onclose_owners [OF client_reachable_step.IH] client_reachable_step.IH
    show ?thesis by (simp add: client_step_def)
  next
    case (Errored w)
    with onerror_owners [OF client_reachable_step.IH] client_reachable_step.IH
    show ?thesis by (simp add: client_step_def)
  next
    case (Timer h)
    with timer_owners [OF client_reachable_step.IH] show ?thesis by (simp add: client_step_def)
  qed
qed

lemma client_run_reachable: "client_reachable cl \<Longrightarrow> client_reachable (client_run cl evs)"
  by (induction evs arbitrary: cl) (simp_all add: client_run_def client_reachable_step)

section \<open>Claims about the client hook\<close>

text \<open>
  C3. The delay scheduled by \<^verbatim>\<open>onclose\<close> for attempt counter \<open>n\<close> is
  \<open>min (1000 * 2 ^ n) 30000\<close> milliseconds, that is 1000, 2000, 4000, 8000, 16000,
  30000, 30000 and 30000 from then on; the maximum is 5 unless the options say
  otherwise. In every state the client reaches, when a socket closes whose hook is not
  unmounted and whose counter is below the maximum, \<^verbatim>\<open>onclose\<close> schedules the
  reconnect with that delay and changes nothing else of the hook but
  \<^verbatim>\<open>isConnected\<close> and the ref. When the counter has reached the maximum it
  schedules nothing and sets the error \<^verbatim>\<open>Maximum reconnection attempts reached\<close>;
  when the hook is unmounted it does nothing to any hook. \<^verbatim>\<open>onopen\<close> sets the
  counter to 0, and the timer, when it fires, increments it.
\<close>

theorem reconnect_backoff:
  "map backoff [0, 1, 2, 3, 4, 5, 6] = [1000, 2000, 4000, 8000, 16000, 30000, 30000] \<and>
   (\<forall>n\<ge>5. backoff n = 30000) \<and>
   reconnectAttempts (new_hook ch tok onMsg t0) = 5 \<and>
   (client_reachable cl \<longrightarrow> w < nextSocket cl \<longrightarrow>
    \<not> isUnmounted (hooks cl (owner (websockets cl w))) \<longrightarrow>
    reconnectCount (hooks cl (owner (websockets cl w))) <
      reconnectAttempts (hooks cl (owner (websockets cl w))) \<longrightarrow>
      hooks (onclose cl w) (owner (websockets cl w)) =
        (hooks cl (owner (websockets cl w)))
          \<lparr>isConnected := False, wsRef := None,
           reconnectTimeout :=
             Some (min (1000 * 2 ^ reconnectCount (hooks cl (owner (websockets cl w)))) 30000)\<rparr>) \<and>
   (\<not> isUnmounted (hooks cl (owner (websockets cl w))) \<longrightarrow>
    reconnectAttempts (hooks cl (owner (websockets cl w))) \<le>
      reconnectCount (hooks cl (owner (websockets cl w))) \<longrightarrow>
      hooks (onclose cl w) (owner (websockets cl w)) =
        (hooks cl (owner (websockets cl w)))
          \<lparr>isConnected := False, wsRef := None,
           error := Some ''Maximum reconnection attempts reached''\<rparr>) \<and>
   (isUnmounted (hooks cl (owner (websockets cl w))) \<longrightarrow> hooks (onclose cl w) = hooks cl) \<and>
   reconnectCount (hooks (onopen cl w now) (owner (websockets cl w))) = 0 \<and>
   (\<forall>h d. reconnectTimeout (hooks cl h) = Some d \<longrightarrow>
      reconnectCount (hooks (reconnect_timer cl h) h) = Suc (reconnectCount (hooks cl h)) \<and>
      reconnectTimeout (hooks (reconnect_timer cl h) h) = None)"
proof -
  have e: "client_reachable cl \<longrightarrow> w < nextSocket cl \<longrightarrow>
           enabled (hooks cl (owner (websockets cl w)))"
    using client_reachable_owners [of cl] by blast
  show ?thesis
    using e backoff_values backoff_cap onclose_schedules [of cl w] onclose_exhausted [of cl w]
      onclose_unmounted [of cl w] onopen_resets [of cl w now] reconnect_timer_counts [of cl]
    by (simp add: backoff_def [symmetric] new_hook_def)
qed

theorem reconnect_backoff_witness:
  "reconnectTimeout
     (hooks (client_run (init_client (\<lambda>_. new_hook ''TENDER_REQUESTS'' None True 0))
               [Mount 0, Closed 0]) 0) = Some 1000 \<and>
   reconnectCount
     (hooks (client_run (init_client (\<lambda>_. new_hook ''TENDER_REQUESTS'' None True 0))
               [Mount 0, Closed 0, Timer 0, Opened 1 7]) 0) = 0 \<and>
   hooks
     (client_run (init_client (\<lambda>_. new_hook ''TENDER_REQUESTS'' None True 0))
        [Mount 0, Closed 0, Timer 0, Closed 1, Timer 0, Closed 2, Timer 0, Closed 3, Timer 0,
         Closed 4, Timer 0, Closed 5]) 0 =
     (new_hook ''TENDER_REQUESTS'' None True 0)
       \<lparr>reconnectCount := 5, error := Some ''Maximum reconnection attempts reached''\<rparr>"
proof -
  let ?init = "init_client (\<lambda>_. new_hook ''TENDER_REQUESTS'' None True 0)"
  let ?cl1 = "client_run ?init [Mount 0]"
  let ?cl3 = "client_run ?init [Mount 0, Closed 0, Timer 0]"
  let ?cl6 = "client_run ?init [Mount 0, Closed 0, Timer 0, Closed 1, Timer 0, Closed 2, Timer 0,
                                Closed 3, Timer 0, Closed 4, Timer 0]"
  note defs = client_run_def client_step_def onclose_def reconnect_timer_def connect_def
    useEffect_mount_def init_client_def new_hook_def update_hook_def Let_def backoff_def
  have r: "client_reachable ?cl1" "client_reachable ?cl6"
    by (rule client_run_reachable [OF client_reachable_init])+
  have f1: "owner (websockets ?cl1 0) = 0 \<and> nextSocket ?cl1 = 1 \<and>
            hooks ?cl1 0 = (new_hook ''TENDER_REQUESTS'' None True 0)\<lparr>wsRef := Some 0\<rparr>"
    by (simp add: defs)
  have f3: "owner (websockets ?cl3 1) = 0 \<and> nextSocket ?cl3 = 2"
    by (simp add: defs)
  have f6: "owner (websockets ?cl6 5) = 0 \<and> nextSocket ?cl6 = 6 \<and>
            hooks ?cl6 0 =
              (new_hook ''TENDER_REQUESTS'' None True 0)\<lparr>wsRef := Some 5, reconnectCount := 5\<rparr>"
    by (simp add: defs)
  have s1: "client_run ?init [Mount 0, Closed 0] = onclose ?cl1 0"
    using f1 by (simp add: client_run_def client_step_def)
  have s3: "client_run ?init [Mount 0, Closed 0, Timer 0, Opened 1 7] = onopen ?cl3 1 7"
    using f3 by (simp add: client_run_def client_step_def)
  have s6: "client_run ?init [Mount 0, Closed 0, Timer 0, Closed 1, Timer 0, Closed 2, Timer 0,
                              Closed 3, Timer 0, Closed 4, Timer 0, Closed 5] = onclose ?cl6 5"
    using f6 by (simp add: client_run_def client_step_def)
  from reconnect_backoff [where cl = ?cl1 and w = 0] r(1) f1
  have a: "reconnectTimeout (hooks (onclose ?cl1 0) 0) = Some 1000"
    by (simp add: new_hook_def)
  from reconnect_backoff [where cl = ?cl3 and w = 1 and now = 7] f3
  have b: "reconnectCount (hooks (onopen ?cl3 1 7) 0) = 0"
    by simp
  from reconnect_backoff [where cl = ?cl6 and w = 5] f6
  have c: "hooks (onclose ?cl6 5) 0 =
     (new_hook ''TENDER_REQUESTS'' None True 0)
       \<lparr>reconnectCount := 5, error := Some ''Maximum reconnection attempts reached''\<rparr>"
    by (simp add: new_hook_def)
  from a b c show ?thesis by (simp only: s1 s3 s6)
qed

text \<open>
  C4 does not hold of the hook. Two components use \<^verbatim>\<open>TENDER_REQUESTS\<close>, each with
  an \<^verbatim>\<open>onMessage\<close>. The first \<^verbatim>\<open>connect\<close> creates the socket and its handlers;
  the second finds it in \<^verbatim>\<open>activeConnections\<close>, stores it in its ref, reports
  itself connected and returns before any handler is set. One frame that parses then
  reaches the first component's callback once and the second component's callback not
  at all.
\<close>

theorem second_subscriber_not_served:
  "map_of (activeConnections
      (client_run (init_client (\<lambda>_. new_hook ''TENDER_REQUESTS'' None True 0))
         [Mount 0, Mount 1])) ''TENDER_REQUESTS'' = Some 0 \<and>
   wsRef (hooks (client_run (init_client (\<lambda>_. new_hook ''TENDER_REQUESTS'' None True 0))
         [Mount 0, Mount 1]) 0) = Some 0 \<and>
   wsRef (hooks (client_run (init_client (\<lambda>_. new_hook ''TENDER_REQUESTS'' None True 0))
         [Mount 0, Mount 1]) 1) = Some 0 \<and>
   isConnected (hooks (client_run (init_client (\<lambda>_. new_hook ''TENDER_REQUESTS'' None True 0))
         [Mount 0, Mount 1]) 1) \<and>
   nextSocket (client_run (init_client (\<lambda>_. new_hook ''TENDER_REQUESTS'' None True 0))
         [Mount 0, Mount 1]) = 1 \<and>
   received (hooks (client_run (init_client (\<lambda>_. new_hook ''TENDER_REQUESTS'' None True 0))
         [Mount 0, Mount 1, Opened 0 1,
          Received 0 (GoodJson ''{type:NEW_REQUEST,request:{id:42}}'') 2]) 0) =
     [''{type:NEW_REQUEST,request:{id:42}}''] \<and>
   received (hooks (client_run (init_client (\<lambda>_. new_hook ''TENDER_REQUESTS'' None True 0))
         [Mount 0, Mount 1, Opened 0 1,
          Received 0 (GoodJson ''{type:NEW_REQUEST,request:{id:42}}'') 2]) 1) = []"
  by (simp add: client_run_def client_step_def onmessage_def onopen_def connect_def
      useEffect_mount_def init_client_def new_hook_def update_hook_def Let_def
      JSON_parse_client_def)

text \<open>
  C5 does not hold of the hook. The cleanup closes the socket only when it is not among
  the values of \<^verbatim>\<open>activeConnections\<close>, and a registered socket always is: after
  the only subscriber unmounts, and likewise after both of two subscribers unmount, the
  socket is still open and still registered. When the component that created the socket
  unmounts and the other stays, the socket stays open but the remaining component's
  callback receives nothing.
\<close>

theorem last_unmount_leaves_socket_open:
  "wsState (websockets
      (client_run (init_client (\<lambda>_. new_hook ''TENDER_REQUESTS'' None True 0))
         [Mount 0, Opened 0 1, Unmount 0]) 0) = OPEN \<and>
   activeConnections
      (client_run (init_client (\<lambda>_. new_hook ''TENDER_REQUESTS'' None True 0))
         [Mount 0, Opened 0 1, Unmount 0]) = [(''TENDER_REQUESTS'', 0)] \<and>
   isUnmounted (hooks
      (client_run (init_client (\<lambda>_. new_hook ''TENDER_REQUESTS'' None True 0))
         [Mount 0, Opened 0 1, Unmount 0]) 0) \<and>
   wsRef (hooks
      (client_run (init_client (\<lambda>_. new_hook ''TENDER_REQUESTS'' None True 0))
         [Mount 0, Opened 0 1, Unmount 0]) 0) = None \<and>
   wsState (websockets
      (client_run (init_client (\<lambda>_. new_hook ''TENDER_REQUESTS'' None True 0))
         [Mount 0, Mount 1, Opened 0 1, Unmount 0, Unmount 1]) 0) = OPEN \<and>
   activeConnections
      (client_run (init_client (\<lambda>_. new_hook ''TENDER_REQUESTS'' None True 0))
         [Mount 0, Mount 1, Opened 0 1, Unmount 0, Unmount 1]) = [(''TENDER_REQUESTS'', 0)] \<and>
   received (hooks
      (client_run (init_client (\<lambda>_. new_hook ''TENDER_REQUESTS'' None True 0))
         [Mount 0, Mount 1, Opened 0 1, Unmount 0, Received 0 (GoodJson ''{}'') 2]) 1) = []"
  by (simp add: client_run_def client_step_def onmessage_def onopen_def connect_def
      useEffect_mount_def useEffect_cleanup_def init_client_def new_hook_def update_hook_def
      Let_def JSON_parse_client_def)

section \<open>Further properties of the transport\<close>

lemma reachable_entries_valid:
  "reachable st \<Longrightarrow> wsConnections st ch \<noteq> None \<Longrightarrow> ch \<in> set validChannels"
proof (induction rule: reachable.induct)
  case reachable_init
  then show ?case by (simp add: init_server_def)
next
  case (reachable_step st ev)
  show ?case
  proof (cases ev)
    case (Connection throws url)
    with reachable_step show ?thesis
      by (auto simp: step_Connection wsConnections_accept split: if_splits)
  next
    case (Close ws)
    with reachable_step show ?thesis
      by (auto simp: wsConnections_step_Close split: option.splits if_splits)
  next
    case (Message ws m)
    with reachable_step step_frame_other [of ev st] show ?thesis by simp
  next
    case (PongFrame ws)
    with reachable_step step_frame_other [of ev st] show ?thesis by simp
  next
    case Sweep
    with reachable_step step_frame_other [of ev st] show ?thesis by simp
  next
    case (Broadcast ch' d)
    with reachable_step step_frame_other [of ev st] show ?thesis by simp
  qed
qed

lemma step_keeps_unhandled_member:
  assumes "c \<in> members st ch" and "listening (sockets st c) = None" and "c < nextId st"
  shows "c \<in> members (step st ev) ch \<and> listening (sockets (step st ev) c) = None \<and>
         c < nextId (step st ev)"
proof -
  have b: "c < nextId (step st ev)" using assms(3) nextId_step [of st ev] by simp
  have l: "listening (sockets (step st ev) c) = None"
    using step_static [of c st ev] assms(2,3) by simp
  have m: "c \<in> members (step st ev) ch"
  proof (cases ev)
    case (Connection throws url)
    with assms(1) show ?thesis by (auto simp: step_Connection members_accept)
  next
    case (Close ws)
    show ?thesis
    proof (cases "ws = c")
      case True
      with Close assms show ?thesis
        by (simp add: members_def wsConnections_step_Close)
    next
      case False
      with Close assms(1) members_step_Close_lower [of st ch ws] show ?thesis by auto
    qed
  next
    case (Message ws m)
    with assms(1) step_frame_other [of ev st] show ?thesis by (simp add: members_def)
  next
    case (PongFrame ws)
    with assms(1) step_frame_other [of ev st] show ?thesis by (simp add: members_def)
  next
    case Sweep
    with assms(1) step_frame_other [of ev st] show ?thesis by (simp add: members_def)
  next
    case (Broadcast ch' d)
    with assms(1) step_frame_other [of ev st] show ?thesis by (simp add: members_def)
  qed
  from m l b show ?thesis by simp
qed

lemma run_keeps_unhandled_member:
  "c \<in> members st ch \<Longrightarrow> listening (sockets st c) = None \<Longrightarrow> c < nextId st \<Longrightarrow>
   c \<in> members (run st evs) ch"
proof (induction evs arbitrary: st)
  case Nil
  then show ?case by (simp add: run_def)
next
  case (Cons ev evs)
  from step_keeps_unhandled_member [OF Cons.prems, of ev] Cons.IH [of "step st ev"]
  show ?case by (simp add: run_Cons)
qed

text \<open>
  X1. The hook and the server do not agree on the request target. For each of the three
  channels the URL that \<^verbatim>\<open>connect\<close> opens is the base URL followed by
  \<^verbatim>\<open>/ws/<name>?channel=<CHANNEL>\<close>; when the base URL is an origin, as the default
  is, that is the target the server parses, and its channel name is \<^verbatim>\<open>ws\<close>: the
  connection is closed with 1008 and no entry is made.
\<close>

theorem hook_url_rejected:
  "ch \<in> set validChannels \<Longrightarrow>
   (\<exists>target. wsUrl WS_BASE_URL ch = Some (WS_BASE_URL @ target) \<and>
      parse_channel target = ''ws'' \<and>
      sockets (accept st throws target) (nextId st) =
        (new_socket throws)\<lparr>readyState := CLOSING,
                             closeCode := Some (1008, ''Invalid channel'')\<rparr> \<and>
      wsConnections (accept st throws target) = wsConnections st)"
proof -
  assume "ch \<in> set validChannels"
  then consider "ch = ''DASHBOARD_STATS''" | "ch = ''TENDER_REQUESTS''" | "ch = ''WEBSITE_ANALYTICS''"
    by (auto simp: validChannels_def)
  then obtain name where u: "wsUrl WS_BASE_URL ch = Some (WS_BASE_URL @ ''/ws/'' @ name @ ''?channel='' @ ch)"
    and nm: "CHR ''/'' \<notin> set name" "CHR ''?'' \<notin> set name"
  proof cases
    case 1
    have "wsUrl WS_BASE_URL ch = Some (WS_BASE_URL @ ''/ws/'' @ ''dashboard-stats'' @ ''?channel='' @ ch)"
      by (simp add: 1 wsUrl_def API_ENDPOINTS_WS_def)
    then show ?thesis by (rule that) simp_all
  next
    case 2
    have "wsUrl WS_BASE_URL ch = Some (WS_BASE_URL @ ''/ws/'' @ ''tender-requests'' @ ''?channel='' @ ch)"
      by (simp add: 2 wsUrl_def API_ENDPOINTS_WS_def)
    then show ?thesis by (rule that) simp_all
  next
    case 3
    have "wsUrl WS_BASE_URL ch = Some (WS_BASE_URL @ ''/ws/'' @ ''website-analytics'' @ ''?channel='' @ ch)"
      by (simp add: 3 wsUrl_def API_ENDPOINTS_WS_def)
    then show ?thesis by (rule that) simp_all
  qed
  let ?target = "''/ws/'' @ name @ ''?channel='' @ ch"
  have p: "parse_channel ?target = ''ws''"
    by (simp add: parse_channel_segment Let_def)
  have v: "parse_channel ?target \<notin> set validChannels"
    unfolding p by (simp add: validChannels_def)
  from u p accept_invalid_socket [OF v, of st throws] accept_invalid_registry [OF v, of st throws]
  show ?thesis by blast
qed

theorem hook_url_rejected_witness:
  "wsUrl ''ws://localhost:5000'' ''TENDER_REQUESTS'' =
     Some (''ws://localhost:5000'' @ ''/ws/tender-requests?channel=TENDER_REQUESTS'') \<and>
   parse_channel ''/ws/tender-requests?channel=TENDER_REQUESTS'' = ''ws'' \<and>
   closeCode (sockets (accept init_server False ''/ws/tender-requests?channel=TENDER_REQUESTS'') 0) =
     Some (1008, ''Invalid channel'')"
proof -
  have v: "''TENDER_REQUESTS'' \<in> set validChannels" by (simp add: validChannels_def)
  have u: "wsUrl ''ws://localhost:5000'' ''TENDER_REQUESTS'' =
     Some (''ws://localhost:5000'' @ ''/ws/tender-requests?channel=TENDER_REQUESTS'')"
    by (simp add: wsUrl_def API_ENDPOINTS_WS_def)
  from hook_url_rejected [OF v, of "''ws://localhost:5000''" init_server False] u
  show ?thesis by (auto simp: init_server_def new_socket_def)
qed

text \<open>
  X2. When the \<^verbatim>\<open>send\<close> of the CONNECTED envelope raises, the \<^verbatim>\<open>catch\<close> closes the
  socket with 1011, but the socket has already been added to its channel and no close
  handler is attached: it is a member of that channel in every later state.
\<close>

theorem failed_acknowledgement_stays_registered:
  "parse_channel url \<in> set validChannels \<Longrightarrow>
   sockets (accept st True url) (nextId st) =
     (new_socket True)\<lparr>readyState := CLOSING,
                        closeCode := Some (1011, ''Internal Server Error'')\<rparr> \<and>
   console_error (accept st True url) = console_error st @ [''Error in WebSocket connection:''] \<and>
   (\<forall>evs. nextId st \<in> members (run (accept st True url) evs) (parse_channel url))"
proof -
  assume v: "parse_channel url \<in> set validChannels"
  have s: "sockets (accept st True url) (nextId st) =
     (new_socket True)\<lparr>readyState := CLOSING,
                        closeCode := Some (1011, ''Internal Server Error'')\<rparr>"
    using v by (simp add: accept_socket_new)
  have c: "console_error (accept st True url) = console_error st @ [''Error in WebSocket connection:'']"
    using v by (simp add: accept_def on_connection_def Let_def ws_send_def new_socket_def)
  have m: "nextId st \<in> members (accept st True url) (parse_channel url)"
    using v by (simp add: members_accept)
  have l: "listening (sockets (accept st True url) (nextId st)) = None"
    by (simp add: s new_socket_def)
  have b: "nextId st < nextId (accept st True url)" by (simp add: nextId_accept)
  from run_keeps_unhandled_member [OF m l b] s c show ?thesis by simp
qed

theorem failed_acknowledgement_stays_registered_witness:
  "closeCode (sockets (accept init_server True ''/TENDER_REQUESTS'') 0) =
     Some (1011, ''Internal Server Error'') \<and>
   0 \<in> members (run (accept init_server True ''/TENDER_REQUESTS'') [Close 0, Sweep, Sweep, Close 0])
         ''TENDER_REQUESTS''"
proof -
  have p: "parse_channel ''/TENDER_REQUESTS'' = ''TENDER_REQUESTS''"
    by (simp add: parse_channel_def urlParts_def)
  have v: "parse_channel ''/TENDER_REQUESTS'' \<in> set validChannels"
    by (simp add: p validChannels_def)
  have n: "nextId init_server = 0" by (simp add: init_server_def)
  from failed_acknowledgement_stays_registered [OF v, of init_server]
  show ?thesis by (simp add: n p new_socket_def)
qed

text \<open>
  X3. In a reachable state only the names of the whitelist have entries, so a broadcast to
  any other name, such as the \<^verbatim>\<open>tender-requests\<close> and \<^verbatim>\<open>dashboard-stats\<close> of
  \<^verbatim>\<open>routes/tenderRequests.js\<close>, finds no entry and does nothing.
\<close>

theorem broadcast_outside_whitelist:
  "reachable st \<Longrightarrow> ch \<notin> set validChannels \<Longrightarrow>
   wsConnections st ch = None \<and> broadcastToChannel st ch d = Inr st"
proof -
  assume r: "reachable st" and n: "ch \<notin> set validChannels"
  from reachable_entries_valid [OF r, of ch] n have "wsConnections st ch = None" by blast
  then show ?thesis by (simp add: broadcastToChannel_def)
qed

theorem broadcast_outside_whitelist_witness:
  "broadcastToChannel (accept init_server False ''/TENDER_REQUESTS'') ''tender-requests'' (Json ''{}'') =
     Inr (accept init_server False ''/TENDER_REQUESTS'') \<and>
   broadcastToChannel (accept init_server False ''/TENDER_REQUESTS'') ''dashboard-stats'' (Json ''{}'') =
     Inr (accept init_server False ''/TENDER_REQUESTS'')"
proof -
  have r: "reachable (accept init_server False ''/TENDER_REQUESTS'')"
    using example_registered by simp
  have n: "''tender-requests'' \<notin> set validChannels" "''dashboard-stats'' \<notin> set validChannels"
    by (simp_all add: validChannels_def)
  from broadcast_outside_whitelist [OF r n(1)] broadcast_outside_whitelist [OF r n(2)]
  show ?thesis by simp
qed

end
